theory Spec2Isabelle
  imports
    Main
    "HOL-Library.Word"
    "HOL-Library.Char_ord"
    "HOL-Library.List_Lexorder"
    "HOL-Library.Multiset"
    "HOL-Library.Monad_Syntax"
begin

unbundle bit_operations_syntax

section \<open>Data model of package rocket\<close>

text \<open>
  Go's \<^verbatim>\<open>int64\<close> is a 64-bit word: \<open>+\<close> and \<open>-\<close> wrap around, and the
  comparisons of the source are the signed ones (\<open>\<le>s\<close>, \<open><s\<close>).  The types
  \<^verbatim>\<open>uuid.UUID\<close> and \<^verbatim>\<open>time.Time\<close> come from libraries; they are the type
  parameters \<open>'id\<close> and \<open>'t\<close>, whose \<open>0\<close> is Go's zero value.  A Go pointer
  field (\<^verbatim>\<open>*string\<close>, \<^verbatim>\<open>*int64\<close>) is an option: \<open>None\<close> is \<^verbatim>\<open>nil\<close>.
\<close>

type_synonym int64 = "64 word"

type_synonym Status = string

definition StatusLaunched :: Status where
  "StatusLaunched = ''LAUNCHED''"

definition StatusExploded :: Status where
  "StatusExploded = ''EXPLODED''"

type_synonym MessageType = string

definition MessageTypeExploded :: MessageType where
  "MessageTypeExploded = ''RocketExploded''"

definition MessageTypeLaunched :: MessageType where
  "MessageTypeLaunched = ''RocketLaunched''"

definition MessageTypeMissionChanged :: MessageType where
  "MessageTypeMissionChanged = ''RocketMissionChanged''"

definition MessageTypeSpeedDecreased :: MessageType where
  "MessageTypeSpeedDecreased = ''RocketSpeedDecreased''"

definition MessageTypeSpeedIncreased :: MessageType where
  "MessageTypeSpeedIncreased = ''RocketSpeedIncreased''"

record Message =
  By :: "int64 option"
  LaunchSpeed :: "int64 option"
  Mission :: "string option"
  NewMission :: "string option"
  Reason :: "string option"
  Type :: "string option"

record ('id, 't) MessageMetadata =
  Channel :: 'id
  MessageNumber :: int64
  MessageTime :: 't
  MessageType :: MessageType

record ('id, 't) TelemetryMessage =
  Metadata :: "('id, 't) MessageMetadata"
  Message :: Message

record ('id, 't) State =
  ID :: 'id
  Type :: string
  CurrentSpeed :: int64
  Mission :: string
  Status :: Status
  Reason :: "string option"
  LastUpdateTime :: 't
  LastProcessedMessageNumber :: int64

text \<open>The zero value of \<^verbatim>\<open>State\<close>: what a Go map lookup yields for a missing key.\<close>

definition zeroState :: "('id::zero, 't::zero) State" where
  "zeroState =
     \<lparr>ID = 0, Type = [], CurrentSpeed = 0, Mission = [], Status = [], Reason = None,
      LastUpdateTime = 0, LastProcessedMessageNumber = 0\<rparr>"

section \<open>The in-memory store (store.go)\<close>

text \<open>
  \<^verbatim>\<open>InMemoryRocketStore.rockets\<close> is a \<^verbatim>\<open>map[uuid.UUID]State\<close>.  Every method
  holds the store's lock for its whole body, so a call is one atomic step on the map.
\<close>

type_synonym ('id, 't) InMemoryRocketStore = "'id \<rightharpoonup> ('id, 't) State"

definition NewInMemoryRocketStore :: "('id, 't) InMemoryRocketStore" where
  "NewInMemoryRocketStore = Map.empty"

definition SaveRocket ::
  "('id, 't) InMemoryRocketStore \<Rightarrow> ('id, 't) State \<Rightarrow> ('id, 't) InMemoryRocketStore" where
  "SaveRocket s state = s(ID state \<mapsto> state)"

definition GetRocketByID ::
  "('id::zero, 't::zero) InMemoryRocketStore \<Rightarrow> 'id \<Rightarrow> ('id, 't) State \<times> bool" where
  "GetRocketByID s rid =
     (case s rid of Some rocket \<Rightarrow> (rocket, True) | None \<Rightarrow> (zeroState, False))"

section \<open>The aggregation engine (service.go, ProcessMessage)\<close>

text \<open>
  Dereferencing a \<^verbatim>\<open>nil\<close> payload pointer panics, and so does an index out of
  range; the panic is a value of the model.  \<open>Inr store'\<close> is the return of a \<^verbatim>\<open>nil\<close> error, with the store as the call
  left it.  The logger calls have no effect on the store and are left out.
\<close>

datatype panic = NilPointerDereference | IndexOutOfRange

text \<open>
  The \<^verbatim>\<open>switch msg.Metadata.MessageType\<close> statement of \<^verbatim>\<open>ProcessMessage\<close>, on the
  local \<^verbatim>\<open>newState\<close>: the cases in the order of the source, no default case.
\<close>

definition switchMessageType ::
  "('id, 't) State \<Rightarrow> ('id, 't) TelemetryMessage \<Rightarrow> panic + ('id, 't) State" where
  "switchMessageType newState msg =
     (let mt = MessageType (Metadata msg) in
      if mt = MessageTypeLaunched then
        (case Message.Type (Message msg) of
           None \<Rightarrow> Inl NilPointerDereference
         | Some ty \<Rightarrow>
        (case LaunchSpeed (Message msg) of
           None \<Rightarrow> Inl NilPointerDereference
         | Some sp \<Rightarrow>
        (case Message.Mission (Message msg) of
           None \<Rightarrow> Inl NilPointerDereference
         | Some mi \<Rightarrow>
             Inr (newState\<lparr>Type := ty, CurrentSpeed := sp, Mission := mi,
                            Status := StatusLaunched\<rparr>))))
      else if mt = MessageTypeSpeedIncreased then
        (case By (Message msg) of
           None \<Rightarrow> Inl NilPointerDereference
         | Some d \<Rightarrow> Inr (newState\<lparr>CurrentSpeed := CurrentSpeed newState + d\<rparr>))
      else if mt = MessageTypeSpeedDecreased then
        (case By (Message msg) of
           None \<Rightarrow> Inl NilPointerDereference
         | Some d \<Rightarrow> Inr (newState\<lparr>CurrentSpeed := CurrentSpeed newState - d\<rparr>))
      else if mt = MessageTypeExploded then
        Inr (newState\<lparr>CurrentSpeed := 0, Status := StatusExploded,
                       Reason := Message.Reason (Message msg)\<rparr>)
      else if mt = MessageTypeMissionChanged then
        (case NewMission (Message msg) of
           None \<Rightarrow> Inl NilPointerDereference
         | Some mi \<Rightarrow> Inr (newState\<lparr>Mission := mi\<rparr>))
      else Inr newState)"

definition ProcessMessage ::
  "('id::zero, 't::zero) InMemoryRocketStore \<Rightarrow> ('id, 't) TelemetryMessage
     \<Rightarrow> panic + ('id, 't) InMemoryRocketStore" where
  "ProcessMessage store msg =
     (let rocketID = Channel (Metadata msg);
          (currentState, exists) = GetRocketByID store rocketID
      in
        if exists \<and> MessageNumber (Metadata msg) \<le>s LastProcessedMessageNumber currentState
        then Inr store
        else
          let newState0 =
                (if \<not> exists then zeroState\<lparr>ID := rocketID, Status := ''UNKNOWN''\<rparr>
                 else currentState);
              newState = newState0
                \<lparr>LastProcessedMessageNumber := MessageNumber (Metadata msg),
                 LastUpdateTime := MessageTime (Metadata msg)\<rparr>
          in case switchMessageType newState msg of
               Inl p \<Rightarrow> Inl p
             | Inr saved \<Rightarrow> Inr (SaveRocket store saved))"

section \<open>The library's sort.Slice\<close>

text \<open>
  \<^verbatim>\<open>ListAllRockets\<close> sorts with \<^verbatim>\<open>sort.Slice\<close> of the Go standard library (Go 1.19 and
  later: pattern-defeating quicksort, \<^verbatim>\<open>pdqsort_func\<close> of \<^verbatim>\<open>sort/zsortfunc.go\<close>).  The
  order it leaves for a comparison that is not an ordering of the elements depends on the
  algorithm, so the algorithm itself is modelled, function by function.

  The slice is a list, passed through and returned.  \<^verbatim>\<open>data.Less(i, j)\<close> is the caller's
  closure, which reads the slice as it is at the time of the call; \<^verbatim>\<open>data.Swap(i, j)\<close>
  exchanges two elements.  Both panic on an index out of range: the value \<open>None\<close>.
  Indices are natural numbers.  Where the source lets an index reach \<open>-1\<close> (the \<open>j\<close> of
  the partition loops and of \<^verbatim>\<open>reverseRange_func\<close>), the model keeps \<open>jj = j + 1\<close>; a
  loop that counts down to zero recurses on the rounds that are left.
\<close>

type_synonym 'a lessSwap = "'a list \<Rightarrow> nat \<Rightarrow> nat \<Rightarrow> bool option"

definition Swap :: "'a list \<Rightarrow> nat \<Rightarrow> nat \<Rightarrow> 'a list option" where
  "Swap data i j =
     (if i < length data \<and> j < length data then Some (data[i := data ! j, j := data ! i])
      else None)"

text \<open>
  \<^verbatim>\<open>insertionSort_func(data, a, b)\<close>:
  \<^verbatim>\<open>for i := a + 1; i < b; i++ { for j := i; j > a && data.Less(j, j-1); j-- { data.Swap(j, j-1) } }\<close>
\<close>

function insertionSort_inner ::
  "'a lessSwap \<Rightarrow> 'a list \<Rightarrow> nat \<Rightarrow> nat \<Rightarrow> 'a list option" where
  "insertionSort_inner Less data a j =
     (if j > a then do {
        lt \<leftarrow> Less data j (j - 1);
        if lt then do {
          data' \<leftarrow> Swap data j (j - 1);
          insertionSort_inner Less data' a (j - 1)
        } else Some data
      } else Some data)"
  by pat_completeness auto
termination
  by (relation "measure (\<lambda>(Less, data, a, j). j)") auto

declare insertionSort_inner.simps [simp del]

function insertionSort_outer ::
  "'a lessSwap \<Rightarrow> 'a list \<Rightarrow> nat \<Rightarrow> nat \<Rightarrow> nat \<Rightarrow> 'a list option" where
  "insertionSort_outer Less data a b i =
     (if i < b then do {
        data' \<leftarrow> insertionSort_inner Less data a i;
        insertionSort_outer Less data' a b (i + 1)
      } else Some data)"
  by pat_completeness auto
termination
  by (relation "measure (\<lambda>(Less, data, a, b, i). b - i)") auto

declare insertionSort_outer.simps [simp del]

definition insertionSort_func ::
  "'a lessSwap \<Rightarrow> 'a list \<Rightarrow> nat \<Rightarrow> nat \<Rightarrow> 'a list option" where
  "insertionSort_func Less data a b = insertionSort_outer Less data a b (a + 1)"

text \<open>
  \<^verbatim>\<open>siftDown_func(data, lo, hi, first)\<close>, with \<^verbatim>\<open>root := lo\<close>:
  \<^verbatim>\<open>for { child := 2*root + 1; if child >= hi { return };
    if child+1 < hi && data.Less(first+child, first+child+1) { child++ };
    if !data.Less(first+root, first+child) { return };
    data.Swap(first+root, first+child); root = child }\<close>
\<close>

function siftDown_func ::
  "'a lessSwap \<Rightarrow> 'a list \<Rightarrow> nat \<Rightarrow> nat \<Rightarrow> nat \<Rightarrow> 'a list option" where
  "siftDown_func Less data lo hi first =
     (let root = lo; child = 2 * root + 1 in
      if child \<ge> hi then Some data
      else do {
        child \<leftarrow> (if child + 1 < hi then do {
                     lt \<leftarrow> Less data (first + child) (first + child + 1);
                     Some (if lt then child + 1 else child)
                   } else Some child);
        lt \<leftarrow> Less data (first + root) (first + child);
        if \<not> lt then Some data
        else do {
          data' \<leftarrow> Swap data (first + root) (first + child);
          siftDown_func Less data' child hi first
        }
      })"
  by pat_completeness auto
termination
  by (relation "measure (\<lambda>(Less, data, lo, hi, first). hi - lo)")
    (auto split: if_splits simp add: bind_eq_Some_conv)

declare siftDown_func.simps [simp del]

text \<open>
  \<^verbatim>\<open>heapSort_func(data, a, b)\<close>, with \<^verbatim>\<open>first := a; lo := 0; hi := b - a\<close>:
  \<^verbatim>\<open>for i := (hi - 1) / 2; i >= 0; i-- { siftDown_func(data, i, hi, first) }\<close>
  \<^verbatim>\<open>for i := hi - 1; i >= 0; i-- { data.Swap(first, first+i); siftDown_func(data, lo, i, first) }\<close>
  The third argument of the two loops of the model is \<open>i + 1\<close>.
\<close>

fun heapSort_build ::
  "'a lessSwap \<Rightarrow> 'a list \<Rightarrow> nat \<Rightarrow> nat \<Rightarrow> nat \<Rightarrow> 'a list option" where
  "heapSort_build Less data 0 hi first = Some data"
| "heapSort_build Less data (Suc i) hi first = do {
     data' \<leftarrow> siftDown_func Less data i hi first;
     heapSort_build Less data' i hi first
   }"

fun heapSort_pop ::
  "'a lessSwap \<Rightarrow> 'a list \<Rightarrow> nat \<Rightarrow> nat \<Rightarrow> nat \<Rightarrow> 'a list option" where
  "heapSort_pop Less data 0 lo first = Some data"
| "heapSort_pop Less data (Suc i) lo first = do {
     data' \<leftarrow> Swap data first (first + i);
     data'' \<leftarrow> siftDown_func Less data' lo i first;
     heapSort_pop Less data'' i lo first
   }"

definition heapSort_func ::
  "'a lessSwap \<Rightarrow> 'a list \<Rightarrow> nat \<Rightarrow> nat \<Rightarrow> 'a list option" where
  "heapSort_func Less data a b =
     (let first = a; lo = 0; hi = b - a in do {
        data' \<leftarrow> heapSort_build Less data (Suc ((hi - 1) div 2)) hi first;
        heapSort_pop Less data' hi lo first
      })"

text \<open>
  \<^verbatim>\<open>partition_func(data, a, b, pivot) (newpivot int, alreadyPartitioned bool)\<close>:
  \<^verbatim>\<open>data.Swap(a, pivot); i, j := a+1, b-1\<close>
  \<^verbatim>\<open>for i <= j && data.Less(i, a) { i++ }; for i <= j && !data.Less(j, a) { j-- }\<close>
  \<^verbatim>\<open>if i > j { data.Swap(j, a); return j, true }\<close>
  \<^verbatim>\<open>data.Swap(i, j); i++; j--\<close>
  \<^verbatim>\<open>for { for i <= j && data.Less(i, a) { i++ }; for i <= j && !data.Less(j, a) { j-- };
    if i > j { break }; data.Swap(i, j); i++; j-- }\<close>
  \<^verbatim>\<open>data.Swap(j, a); return j, false\<close>
\<close>

function partition_skipLess ::
  "'a lessSwap \<Rightarrow> 'a list \<Rightarrow> nat \<Rightarrow> nat \<Rightarrow> nat \<Rightarrow> nat option" where
  "partition_skipLess Less data a i jj =
     (if i < jj then do {
        lt \<leftarrow> Less data i a;
        if lt then partition_skipLess Less data a (i + 1) jj else Some i
      } else Some i)"
  by pat_completeness auto
termination
  by (relation "measure (\<lambda>(Less, data, a, i, jj). jj - i)") auto

declare partition_skipLess.simps [simp del]

lemma partition_skipLess_range:
  "partition_skipLess Less data a i jj = Some i' \<Longrightarrow> i \<le> i' \<and> i' \<le> max i jj"
proof (induction Less data a i jj rule: partition_skipLess.induct)
  case (1 Less data a i jj)
  show ?case
  proof (cases "i < jj")
    case False
    with "1.prems" show ?thesis by (simp add: partition_skipLess.simps)
  next
    case True
    with "1.prems" obtain lt where lt: "Less data i a = Some lt"
      and r: "(if lt then partition_skipLess Less data a (i + 1) jj else Some i) = Some i'"
      by (subst (asm) partition_skipLess.simps) (auto simp add: bind_eq_Some_conv)
    show ?thesis
    proof (cases lt)
      case True
      with "1.IH" [OF \<open>i < jj\<close> lt] r show ?thesis using \<open>i < jj\<close> by auto
    next
      case False
      with r \<open>i < jj\<close> show ?thesis by simp
    qed
  qed
qed

function partition_skipNotLess ::
  "'a lessSwap \<Rightarrow> 'a list \<Rightarrow> nat \<Rightarrow> nat \<Rightarrow> nat \<Rightarrow> nat option" where
  "partition_skipNotLess Less data a i jj =
     (if i < jj then do {
        lt \<leftarrow> Less data (jj - 1) a;
        if \<not> lt then partition_skipNotLess Less data a i (jj - 1) else Some jj
      } else Some jj)"
  by pat_completeness auto
termination
  by (relation "measure (\<lambda>(Less, data, a, i, jj). jj)") auto

declare partition_skipNotLess.simps [simp del]

lemma partition_skipNotLess_range:
  "partition_skipNotLess Less data a i jj = Some jj' \<Longrightarrow> jj' \<le> jj \<and> min i jj \<le> jj'"
proof (induction Less data a i jj rule: partition_skipNotLess.induct)
  case (1 Less data a i jj)
  show ?case
  proof (cases "i < jj")
    case False
    with "1.prems" show ?thesis by (simp add: partition_skipNotLess.simps)
  next
    case True
    with "1.prems" obtain lt where lt: "Less data (jj - 1) a = Some lt"
      and r: "(if \<not> lt then partition_skipNotLess Less data a i (jj - 1) else Some jj) = Some jj'"
      by (subst (asm) partition_skipNotLess.simps) (auto simp add: bind_eq_Some_conv)
    show ?thesis
    proof (cases lt)
      case False
      with "1.IH" [OF \<open>i < jj\<close> lt] r show ?thesis using \<open>i < jj\<close> by auto
    next
      case True
      with r \<open>i < jj\<close> show ?thesis by simp
    qed
  qed
qed

function partition_loop ::
  "'a lessSwap \<Rightarrow> 'a list \<Rightarrow> nat \<Rightarrow> nat \<Rightarrow> nat \<Rightarrow> ('a list \<times> nat \<times> nat) option" where
  "partition_loop Less data a i jj = do {
     i \<leftarrow> partition_skipLess Less data a i jj;
     jj \<leftarrow> partition_skipNotLess Less data a i jj;
     if i \<ge> jj then Some (data, i, jj)
     else do {
       data \<leftarrow> Swap data i (jj - 1);
       partition_loop Less data a (i + 1) (jj - 1)
     }
   }"
  by pat_completeness auto
termination
proof (relation "measure (\<lambda>(Less, data, a, i, jj). jj - i)", goal_cases)
  case 1
  show ?case by simp
next
  case (2 Less data a i jj i' jj' data')
  from partition_skipLess_range [OF 2(1)] partition_skipNotLess_range [OF 2(2)] 2(3)
  show ?case by auto
qed

declare partition_loop.simps [simp del]

definition partition_func ::
  "'a lessSwap \<Rightarrow> 'a list \<Rightarrow> nat \<Rightarrow> nat \<Rightarrow> nat \<Rightarrow> ('a list \<times> nat \<times> bool) option" where
  "partition_func Less data a b pivot = do {
     data \<leftarrow> Swap data a pivot;
     i \<leftarrow> partition_skipLess Less data a (a + 1) b;
     jj \<leftarrow> partition_skipNotLess Less data a i b;
     if i \<ge> jj then
       (if jj = 0 then None
        else do { data \<leftarrow> Swap data (jj - 1) a; Some (data, jj - 1, True) })
     else do {
       data \<leftarrow> Swap data i (jj - 1);
       (data, i, jj) \<leftarrow> partition_loop Less data a (i + 1) (jj - 1);
       if jj = 0 then None
       else do { data \<leftarrow> Swap data (jj - 1) a; Some (data, jj - 1, False) }
     }
   }"

text \<open>
  \<^verbatim>\<open>partitionEqual_func(data, a, b, pivot) (newpivot int)\<close>:
  \<^verbatim>\<open>data.Swap(a, pivot); i, j := a+1, b-1\<close>
  \<^verbatim>\<open>for { for i <= j && !data.Less(a, i) { i++ }; for i <= j && data.Less(a, j) { j-- };
    if i > j { break }; data.Swap(i, j); i++; j-- }\<close>
  \<^verbatim>\<open>return i\<close>
\<close>

function partitionEqual_skipNotLess ::
  "'a lessSwap \<Rightarrow> 'a list \<Rightarrow> nat \<Rightarrow> nat \<Rightarrow> nat \<Rightarrow> nat option" where
  "partitionEqual_skipNotLess Less data a i jj =
     (if i < jj then do {
        lt \<leftarrow> Less data a i;
        if \<not> lt then partitionEqual_skipNotLess Less data a (i + 1) jj else Some i
      } else Some i)"
  by pat_completeness auto
termination
  by (relation "measure (\<lambda>(Less, data, a, i, jj). jj - i)") auto

declare partitionEqual_skipNotLess.simps [simp del]

lemma partitionEqual_skipNotLess_range:
  "partitionEqual_skipNotLess Less data a i jj = Some i' \<Longrightarrow> i \<le> i' \<and> i' \<le> max i jj"
proof (induction Less data a i jj rule: partitionEqual_skipNotLess.induct)
  case (1 Less data a i jj)
  show ?case
  proof (cases "i < jj")
    case False
    with "1.prems" show ?thesis by (simp add: partitionEqual_skipNotLess.simps)
  next
    case True
    with "1.prems" obtain lt where lt: "Less data a i = Some lt"
      and r: "(if \<not> lt then partitionEqual_skipNotLess Less data a (i + 1) jj else Some i) = Some i'"
      by (subst (asm) partitionEqual_skipNotLess.simps) (auto simp add: bind_eq_Some_conv)
    show ?thesis
    proof (cases lt)
      case False
      with "1.IH" [OF \<open>i < jj\<close> lt] r show ?thesis using \<open>i < jj\<close> by auto
    next
      case True
      with r \<open>i < jj\<close> show ?thesis by simp
    qed
  qed
qed

function partitionEqual_skipLess ::
  "'a lessSwap \<Rightarrow> 'a list \<Rightarrow> nat \<Rightarrow> nat \<Rightarrow> nat \<Rightarrow> nat option" where
  "partitionEqual_skipLess Less data a i jj =
     (if i < jj then do {
        lt \<leftarrow> Less data a (jj - 1);
        if lt then partitionEqual_skipLess Less data a i (jj - 1) else Some jj
      } else Some jj)"
  by pat_completeness auto
termination
  by (relation "measure (\<lambda>(Less, data, a, i, jj). jj)") auto

declare partitionEqual_skipLess.simps [simp del]

lemma partitionEqual_skipLess_range:
  "partitionEqual_skipLess Less data a i jj = Some jj' \<Longrightarrow> jj' \<le> jj \<and> min i jj \<le> jj'"
proof (induction Less data a i jj rule: partitionEqual_skipLess.induct)
  case (1 Less data a i jj)
  show ?case
  proof (cases "i < jj")
    case False
    with "1.prems" show ?thesis by (simp add: partitionEqual_skipLess.simps)
  next
    case True
    with "1.prems" obtain lt where lt: "Less data a (jj - 1) = Some lt"
      and r: "(if lt then partitionEqual_skipLess Less data a i (jj - 1) else Some jj) = Some jj'"
      by (subst (asm) partitionEqual_skipLess.simps) (auto simp add: bind_eq_Some_conv)
    show ?thesis
    proof (cases lt)
      case True
      with "1.IH" [OF \<open>i < jj\<close> lt] r show ?thesis using \<open>i < jj\<close> by auto
    next
      case False
      with r \<open>i < jj\<close> show ?thesis by simp
    qed
  qed
qed

function partitionEqual_loop ::
  "'a lessSwap \<Rightarrow> 'a list \<Rightarrow> nat \<Rightarrow> nat \<Rightarrow> nat \<Rightarrow> ('a list \<times> nat) option" where
  "partitionEqual_loop Less data a i jj = do {
     i \<leftarrow> partitionEqual_skipNotLess Less data a i jj;
     jj \<leftarrow> partitionEqual_skipLess Less data a i jj;
     if i \<ge> jj then Some (data, i)
     else do {
       data \<leftarrow> Swap data i (jj - 1);
       partitionEqual_loop Less data a (i + 1) (jj - 1)
     }
   }"
  by pat_completeness auto
termination
proof (relation "measure (\<lambda>(Less, data, a, i, jj). jj - i)", goal_cases)
  case 1
  show ?case by simp
next
  case (2 Less data a i jj i' jj' data')
  from partitionEqual_skipNotLess_range [OF 2(1)] partitionEqual_skipLess_range [OF 2(2)] 2(3)
  show ?case by auto
qed

declare partitionEqual_loop.simps [simp del]

definition partitionEqual_func ::
  "'a lessSwap \<Rightarrow> 'a list \<Rightarrow> nat \<Rightarrow> nat \<Rightarrow> nat \<Rightarrow> ('a list \<times> nat) option" where
  "partitionEqual_func Less data a b pivot = do {
     data \<leftarrow> Swap data a pivot;
     partitionEqual_loop Less data a (a + 1) b
   }"

text \<open>
  \<^verbatim>\<open>partialInsertionSort_func(data, a, b) bool\<close>, with \<^verbatim>\<open>maxSteps = 5\<close> and
  \<^verbatim>\<open>shortestShifting = 50\<close>:
  \<^verbatim>\<open>i := a + 1\<close>
  \<^verbatim>\<open>for j := 0; j < maxSteps; j++ {
    for i < b && !data.Less(i, i-1) { i++ };
    if i == b { return true }; if b-a < shortestShifting { return false };
    data.Swap(i, i-1);
    if i-a >= 2 { for j := i - 1; j >= 1; j-- { if !data.Less(j, j-1) { break }; data.Swap(j, j-1) } };
    if b-i >= 2 { for j := i + 1; j < b; j++ { if !data.Less(j, j-1) { break }; data.Swap(j, j-1) } } }\<close>
  \<^verbatim>\<open>return false\<close>
\<close>

function partialInsertionSort_scan ::
  "'a lessSwap \<Rightarrow> 'a list \<Rightarrow> nat \<Rightarrow> nat \<Rightarrow> nat option" where
  "partialInsertionSort_scan Less data i b =
     (if i < b then do {
        lt \<leftarrow> Less data i (i - 1);
        if \<not> lt then partialInsertionSort_scan Less data (i + 1) b else Some i
      } else Some i)"
  by pat_completeness auto
termination
  by (relation "measure (\<lambda>(Less, data, i, b). b - i)") auto

declare partialInsertionSort_scan.simps [simp del]

function partialInsertionSort_shiftLeft ::
  "'a lessSwap \<Rightarrow> 'a list \<Rightarrow> nat \<Rightarrow> 'a list option" where
  "partialInsertionSort_shiftLeft Less data j =
     (if j \<ge> 1 then do {
        lt \<leftarrow> Less data j (j - 1);
        if \<not> lt then Some data
        else do {
          data \<leftarrow> Swap data j (j - 1);
          partialInsertionSort_shiftLeft Less data (j - 1)
        }
      } else Some data)"
  by pat_completeness auto
termination
  by (relation "measure (\<lambda>(Less, data, j). j)") auto

declare partialInsertionSort_shiftLeft.simps [simp del]

function partialInsertionSort_shiftRight ::
  "'a lessSwap \<Rightarrow> 'a list \<Rightarrow> nat \<Rightarrow> nat \<Rightarrow> 'a list option" where
  "partialInsertionSort_shiftRight Less data j b =
     (if j < b then do {
        lt \<leftarrow> Less data j (j - 1);
        if \<not> lt then Some data
        else do {
          data \<leftarrow> Swap data j (j - 1);
          partialInsertionSort_shiftRight Less data (j + 1) b
        }
      } else Some data)"
  by pat_completeness auto
termination
  by (relation "measure (\<lambda>(Less, data, j, b). b - j)") auto

declare partialInsertionSort_shiftRight.simps [simp del]

text \<open>The last argument is the number of rounds of the outer loop that are left.\<close>

fun partialInsertionSort_steps ::
  "'a lessSwap \<Rightarrow> 'a list \<Rightarrow> nat \<Rightarrow> nat \<Rightarrow> nat \<Rightarrow> nat \<Rightarrow> ('a list \<times> bool) option" where
  "partialInsertionSort_steps Less data a b i 0 = Some (data, False)"
| "partialInsertionSort_steps Less data a b i (Suc n) = do {
     i \<leftarrow> partialInsertionSort_scan Less data i b;
     if i = b then Some (data, True)
     else if b - a < 50 then Some (data, False)
     else do {
       data \<leftarrow> Swap data i (i - 1);
       data \<leftarrow> (if i - a \<ge> 2 then partialInsertionSort_shiftLeft Less data (i - 1)
                else Some data);
       data \<leftarrow> (if b - i \<ge> 2 then partialInsertionSort_shiftRight Less data (i + 1) b
                else Some data);
       partialInsertionSort_steps Less data a b i n
     }
   }"

definition partialInsertionSort_func ::
  "'a lessSwap \<Rightarrow> 'a list \<Rightarrow> nat \<Rightarrow> nat \<Rightarrow> ('a list \<times> bool) option" where
  "partialInsertionSort_func Less data a b = partialInsertionSort_steps Less data a b (a + 1) 5"

text \<open>
  \<^verbatim>\<open>bits.Len(x)\<close>: the number of bits of \<open>x\<close>, 0 for 0.
  \<^verbatim>\<open>nextPowerOfTwo(length)\<close>: \<^verbatim>\<open>1 << bits.Len(uint(length))\<close>.
  \<^verbatim>\<open>(r *xorshift) Next()\<close> on a \<^verbatim>\<open>uint64\<close>:
  \<^verbatim>\<open>*r ^= *r << 13; *r ^= *r >> 7; *r ^= *r << 17\<close>.
\<close>

fun bitsLen :: "nat \<Rightarrow> nat" where
  "bitsLen n = (if n = 0 then 0 else Suc (bitsLen (n div 2)))"

declare bitsLen.simps [simp del]

definition nextPowerOfTwo :: "nat \<Rightarrow> nat" where
  "nextPowerOfTwo len = 2 ^ bitsLen len"

definition xorshift_Next :: "64 word \<Rightarrow> 64 word" where
  "xorshift_Next r =
     (let r = r XOR push_bit 13 r;
          r = r XOR drop_bit 7 r;
          r = r XOR push_bit 17 r
      in r)"

text \<open>
  \<^verbatim>\<open>breakPatterns_func(data, a, b)\<close>, with \<^verbatim>\<open>length := b - a\<close>: when
  \<^verbatim>\<open>length >= 8\<close>, with \<^verbatim>\<open>random := xorshift(length)\<close> and
  \<^verbatim>\<open>modulus := nextPowerOfTwo(length)\<close>, three rounds \<open>i = 0, 1, 2\<close> of
  \<^verbatim>\<open>other := int(uint(random.Next()) & (modulus - 1)); if other >= length { other -= length }\<close>
  and a swap of the element at \<open>a + other\<close> with the one at \<open>a + (length/4)*2 - 1 + i\<close>.
  The three positions swapped are the middle candidate \<open>a + (length/4)*2\<close> of
  \<^verbatim>\<open>choosePivot_func\<close> and its two neighbours.  In the model \<open>idx\<close> is the first of the
  three, and the last argument of the loop is the number of rounds that are left.
\<close>

fun breakPatterns_loop ::
  "'a list \<Rightarrow> nat \<Rightarrow> nat \<Rightarrow> nat \<Rightarrow> nat \<Rightarrow> 64 word \<Rightarrow> nat \<Rightarrow> nat \<Rightarrow> 'a list option" where
  "breakPatterns_loop data a len modulus idx random i 0 = Some data"
| "breakPatterns_loop data a len modulus idx random i (Suc n) =
     (let random = xorshift_Next random;
          other = unat random AND (modulus - 1);
          other = (if other \<ge> len then other - len else other)
      in do {
        data \<leftarrow> Swap data (idx + i) (a + other);
        breakPatterns_loop data a len modulus idx random (i + 1) n
      })"

definition breakPatterns_func :: "'a list \<Rightarrow> nat \<Rightarrow> nat \<Rightarrow> 'a list option" where
  "breakPatterns_func data a b =
     (let len = b - a in
      if len \<ge> 8 then
        (let random = (of_nat len :: 64 word);
             modulus = nextPowerOfTwo len;
             idx = a + (len div 4) * 2 - 1
         in breakPatterns_loop data a len modulus idx random 0 3)
      else Some data)"

text \<open>
  \<^verbatim>\<open>order2_func(data, a, b, swaps)\<close>:
  \<^verbatim>\<open>if data.Less(b, a) { *swaps++; return b, a }; return a, b\<close>.
  \<^verbatim>\<open>median_func(data, a, b, c, swaps)\<close>:
  \<^verbatim>\<open>a, b = order2_func(data, a, b, swaps); b, c = order2_func(data, b, c, swaps);
    a, b = order2_func(data, a, b, swaps); return b\<close>.
  \<^verbatim>\<open>medianAdjacent_func(data, a, swaps)\<close>: \<^verbatim>\<open>return median_func(data, a-1, a, a+1, swaps)\<close>.
  The counter \<^verbatim>\<open>*swaps\<close> is passed in and returned.
\<close>

datatype sortedHint = unknownHint | increasingHint | decreasingHint

definition order2_func ::
  "'a lessSwap \<Rightarrow> 'a list \<Rightarrow> nat \<Rightarrow> nat \<Rightarrow> nat \<Rightarrow> (nat \<times> nat \<times> nat) option" where
  "order2_func Less data a b swaps = do {
     lt \<leftarrow> Less data b a;
     Some (if lt then (b, a, swaps + 1) else (a, b, swaps))
   }"

definition median_func ::
  "'a lessSwap \<Rightarrow> 'a list \<Rightarrow> nat \<Rightarrow> nat \<Rightarrow> nat \<Rightarrow> nat \<Rightarrow> (nat \<times> nat) option" where
  "median_func Less data a b c swaps = do {
     (a, b, swaps) \<leftarrow> order2_func Less data a b swaps;
     (b, c, swaps) \<leftarrow> order2_func Less data b c swaps;
     (a, b, swaps) \<leftarrow> order2_func Less data a b swaps;
     Some (b, swaps)
   }"

definition medianAdjacent_func ::
  "'a lessSwap \<Rightarrow> 'a list \<Rightarrow> nat \<Rightarrow> nat \<Rightarrow> (nat \<times> nat) option" where
  "medianAdjacent_func Less data a swaps = median_func Less data (a - 1) a (a + 1) swaps"

text \<open>
  \<^verbatim>\<open>choosePivot_func(data, a, b) (pivot int, hint sortedHint)\<close>, with
  \<^verbatim>\<open>shortestNinther = 50\<close> and \<^verbatim>\<open>maxSwaps = 4 * 3\<close>:
  \<^verbatim>\<open>l := b - a; swaps := 0; i := a + l/4*1; j := a + l/4*2; k := a + l/4*3\<close>
  \<^verbatim>\<open>if l >= 8 { if l >= shortestNinther { i = medianAdjacent_func(data, i, &swaps);
      j = medianAdjacent_func(data, j, &swaps); k = medianAdjacent_func(data, k, &swaps) };
    j = median_func(data, i, j, k, &swaps) }\<close>
  \<^verbatim>\<open>switch swaps { case 0: return j, increasingHint; case maxSwaps: return j, decreasingHint;
    default: return j, unknownHint }\<close>
\<close>

definition choosePivot_func ::
  "'a lessSwap \<Rightarrow> 'a list \<Rightarrow> nat \<Rightarrow> nat \<Rightarrow> (nat \<times> sortedHint) option" where
  "choosePivot_func Less data a b =
     (let l = b - a;
          i = a + l div 4 * 1;
          j = a + l div 4 * 2;
          k = a + l div 4 * 3
      in do {
        (j, swaps) \<leftarrow>
          (if l \<ge> 8 then do {
             (i, j, k, swaps) \<leftarrow>
               (if l \<ge> 50 then do {
                  (i, swaps) \<leftarrow> medianAdjacent_func Less data i 0;
                  (j, swaps) \<leftarrow> medianAdjacent_func Less data j swaps;
                  (k, swaps) \<leftarrow> medianAdjacent_func Less data k swaps;
                  Some (i, j, k, swaps)
                } else Some (i, j, k, 0));
             median_func Less data i j k swaps
           } else Some (j, 0));
        Some (if swaps = 0 then (j, increasingHint)
              else if swaps = 4 * 3 then (j, decreasingHint)
              else (j, unknownHint))
      })"

text \<open>
  \<^verbatim>\<open>reverseRange_func(data, a, b)\<close>:
  \<^verbatim>\<open>i := a; j := b - 1; for i < j { data.Swap(i, j); i++; j-- }\<close>
\<close>

function reverseRange_loop :: "'a list \<Rightarrow> nat \<Rightarrow> nat \<Rightarrow> 'a list option" where
  "reverseRange_loop data i jj =
     (if i + 1 < jj then do {
        data \<leftarrow> Swap data i (jj - 1);
        reverseRange_loop data (i + 1) (jj - 1)
      } else Some data)"
  by pat_completeness auto
termination
  by (relation "measure (\<lambda>(data, i, jj). jj - i)") auto

declare reverseRange_loop.simps [simp del]

definition reverseRange_func :: "'a list \<Rightarrow> nat \<Rightarrow> nat \<Rightarrow> 'a list option" where
  "reverseRange_func data a b = reverseRange_loop data a b"

text \<open>Where the partitions put the pivot: what the recursion of the sort needs to end.\<close>

lemma partition_loop_range:
  "partition_loop Less data a i jj = Some (data', i', jj') \<Longrightarrow> i \<le> jj + 1 \<Longrightarrow>
   i - 1 \<le> jj' \<and> jj' \<le> jj"
proof (induction Less data a i jj arbitrary: data' i' jj' rule: partition_loop.induct)
  case (1 Less data a i jj)
  from "1.prems"(1) obtain i1 jj1 where
    i1: "partition_skipLess Less data a i jj = Some i1"
    and jj1: "partition_skipNotLess Less data a i1 jj = Some jj1"
    and r: "(if i1 \<ge> jj1 then Some (data, i1, jj1)
             else do { d \<leftarrow> Swap data i1 (jj1 - 1);
                       partition_loop Less d a (i1 + 1) (jj1 - 1) }) = Some (data', i', jj')"
    by (subst (asm) partition_loop.simps) (auto simp add: bind_eq_Some_conv)
  note b1 = partition_skipLess_range [OF i1]
  note b2 = partition_skipNotLess_range [OF jj1]
  show ?case
  proof (cases "i1 \<ge> jj1")
    case True
    with r b1 b2 "1.prems"(2) show ?thesis by auto
  next
    case False
    with r obtain d where d: "Swap data i1 (jj1 - 1) = Some d"
      and rec: "partition_loop Less d a (i1 + 1) (jj1 - 1) = Some (data', i', jj')"
      by (auto simp add: bind_eq_Some_conv)
    from False have "i1 + 1 \<le> jj1 - 1 + 1" by simp
    from "1.IH" [OF i1 jj1 _ d rec this] False
    have "i1 + 1 - 1 \<le> jj' \<and> jj' \<le> jj1 - 1" by simp
    with b1 b2 show ?thesis by auto
  qed
qed

lemma partition_func_range:
  assumes "partition_func Less data a b pivot = Some (data', mid, ap)" and "a < b"
  shows "a \<le> mid \<and> mid < b"
proof -
  from assms(1) obtain d0 i1 jj1 where
    i1: "partition_skipLess Less d0 a (a + 1) b = Some i1"
    and jj1: "partition_skipNotLess Less d0 a i1 b = Some jj1"
    and r: "(if i1 \<ge> jj1 then
               (if jj1 = 0 then None
                else do { d \<leftarrow> Swap d0 (jj1 - 1) a; Some (d, jj1 - 1, True) })
             else do {
               d \<leftarrow> Swap d0 i1 (jj1 - 1);
               (d, i, jj) \<leftarrow> partition_loop Less d a (i1 + 1) (jj1 - 1);
               if jj = 0 then None
               else do { d \<leftarrow> Swap d (jj - 1) a; Some (d, jj - 1, False) }
             }) = Some (data', mid, ap)"
    by (auto simp add: partition_func_def bind_eq_Some_conv)
  note b1 = partition_skipLess_range [OF i1]
  note b2 = partition_skipNotLess_range [OF jj1]
  show ?thesis
  proof (cases "i1 \<ge> jj1")
    case True
    with r b1 b2 assms(2) show ?thesis
      by (auto simp add: bind_eq_Some_conv split: if_splits)
  next
    case False
    with r obtain d d2 i2 jj2 where
      lp: "partition_loop Less d a (i1 + 1) (jj1 - 1) = Some (d2, i2, jj2)"
      and mid: "jj2 \<noteq> 0" "mid = jj2 - 1"
      by (auto simp add: bind_eq_Some_conv split: if_splits)
    from False have "i1 + 1 \<le> jj1 - 1 + 1" by simp
    from partition_loop_range [OF lp this] b1 b2 mid assms(2) False show ?thesis by auto
  qed
qed

lemma partitionEqual_loop_range:
  "partitionEqual_loop Less data a i jj = Some (data', i') \<Longrightarrow>
   i \<le> i' \<and> i' \<le> max i jj"
proof (induction Less data a i jj arbitrary: data' i' rule: partitionEqual_loop.induct)
  case (1 Less data a i jj)
  from "1.prems" obtain i1 jj1 where
    i1: "partitionEqual_skipNotLess Less data a i jj = Some i1"
    and jj1: "partitionEqual_skipLess Less data a i1 jj = Some jj1"
    and r: "(if i1 \<ge> jj1 then Some (data, i1)
             else do { d \<leftarrow> Swap data i1 (jj1 - 1);
                       partitionEqual_loop Less d a (i1 + 1) (jj1 - 1) }) = Some (data', i')"
    by (subst (asm) partitionEqual_loop.simps) (auto simp add: bind_eq_Some_conv)
  note b1 = partitionEqual_skipNotLess_range [OF i1]
  note b2 = partitionEqual_skipLess_range [OF jj1]
  show ?case
  proof (cases "i1 \<ge> jj1")
    case True
    with r b1 b2 show ?thesis by auto
  next
    case False
    with r obtain d where d: "Swap data i1 (jj1 - 1) = Some d"
      and rec: "partitionEqual_loop Less d a (i1 + 1) (jj1 - 1) = Some (data', i')"
      by (auto simp add: bind_eq_Some_conv)
    from "1.IH" [OF i1 jj1 _ d rec] False
    have "i1 + 1 \<le> i' \<and> i' \<le> max (i1 + 1) (jj1 - 1)" by simp
    with b1 b2 False show ?thesis by auto
  qed
qed

lemma partitionEqual_func_range:
  assumes "partitionEqual_func Less data a b pivot = Some (data', mid)" and "a < b"
  shows "a < mid \<and> mid \<le> b"
proof -
  from assms(1) obtain d0 where
    "partitionEqual_loop Less d0 a (a + 1) b = Some (data', mid)"
    by (auto simp add: partitionEqual_func_def bind_eq_Some_conv)
  from partitionEqual_loop_range [OF this] assms(2) show ?thesis by auto
qed

text \<open>
  \<^verbatim>\<open>pdqsort_func(data, a, b, limit)\<close>, with \<^verbatim>\<open>maxInsertion = 12\<close> and the locals
  \<^verbatim>\<open>wasBalanced = true; wasPartitioned = true\<close>:
  \<^verbatim>\<open>for { length := b - a
    if length <= maxInsertion { insertionSort_func(data, a, b); return }
    if limit == 0 { heapSort_func(data, a, b); return }
    if !wasBalanced { breakPatterns_func(data, a, b); limit-- }
    pivot, hint := choosePivot_func(data, a, b)
    if hint == decreasingHint { reverseRange_func(data, a, b);
      pivot = (b - 1) - (pivot - a); hint = increasingHint }
    if wasBalanced && wasPartitioned && hint == increasingHint {
      if partialInsertionSort_func(data, a, b) { return } }
    if a > 0 && !data.Less(a-1, pivot) {
      mid := partitionEqual_func(data, a, b, pivot); a = mid; continue }
    mid, alreadyPartitioned := partition_func(data, a, b, pivot)
    wasPartitioned = alreadyPartitioned
    leftLen, rightLen := mid-a, b-mid
    balanceThreshold := length / 8
    if leftLen < rightLen { wasBalanced = leftLen >= balanceThreshold
      pdqsort_func(data, a, mid, limit); a = mid + 1
    } else { wasBalanced = rightLen >= balanceThreshold
      pdqsort_func(data, mid+1, b, limit); b = mid } }\<close>
  One round of the loop is one call of \<open>pdqsort_loop\<close>, with the two locals as arguments.
\<close>

function pdqsort_loop ::
  "'a lessSwap \<Rightarrow> 'a list \<Rightarrow> nat \<Rightarrow> nat \<Rightarrow> nat \<Rightarrow> bool \<Rightarrow> bool \<Rightarrow> 'a list option" where
  "pdqsort_loop Less data a b limit wasBalanced wasPartitioned =
     (let len = b - a in
      if len \<le> 12 then insertionSort_func Less data a b
      else if limit = 0 then heapSort_func Less data a b
      else do {
        (data, limit) \<leftarrow>
          (if \<not> wasBalanced then do {
             data \<leftarrow> breakPatterns_func data a b;
             Some (data, limit - 1)
           } else Some (data, limit));
        (pivot, hint) \<leftarrow> choosePivot_func Less data a b;
        (data, pivot, hint) \<leftarrow>
          (if hint = decreasingHint then do {
             data \<leftarrow> reverseRange_func data a b;
             Some (data, (b - 1) - (pivot - a), increasingHint)
           } else Some (data, pivot, hint));
        (data, isSorted) \<leftarrow>
          (if wasBalanced \<and> wasPartitioned \<and> hint = increasingHint
           then partialInsertionSort_func Less data a b
           else Some (data, False));
        if isSorted then Some data
        else do {
          equal \<leftarrow> (if a > 0 then do {
                       lt \<leftarrow> Less data (a - 1) pivot;
                       Some (\<not> lt)
                     } else Some False);
          if equal then do {
            (data, mid) \<leftarrow> partitionEqual_func Less data a b pivot;
            pdqsort_loop Less data mid b limit wasBalanced wasPartitioned
          } else do {
            (data, mid, alreadyPartitioned) \<leftarrow> partition_func Less data a b pivot;
            let leftLen = mid - a; rightLen = b - mid; balanceThreshold = len div 8 in
            if leftLen < rightLen then do {
              data \<leftarrow> pdqsort_loop Less data a mid limit True True;
              pdqsort_loop Less data (mid + 1) b limit
                (leftLen \<ge> balanceThreshold) alreadyPartitioned
            } else do {
              data \<leftarrow> pdqsort_loop Less data (mid + 1) b limit True True;
              pdqsort_loop Less data a mid limit
                (rightLen \<ge> balanceThreshold) alreadyPartitioned
            }
          }
        }
      })"
  by pat_completeness auto
termination
proof (relation "measure (\<lambda>(Less, data, a, b, limit, wasBalanced, wasPartitioned). b - a)",
    goal_cases)
  case 1
  show ?case by simp
next
  case 2
  then show ?case
    apply -
    apply hypsubst_thin
    apply (frule partitionEqual_func_range)
     apply (simp (no_asm_simp))
    apply (elim conjE)
    apply (thin_tac "_ = Some _")+
    apply simp
    done
next
  case 3
  then show ?case
    apply -
    apply hypsubst_thin
    apply (frule partition_func_range)
     apply (simp (no_asm_simp))
    apply (elim conjE)
    apply (thin_tac "_ = Some _")+
    apply simp
    done
next
  case 4
  then show ?case
    apply -
    apply hypsubst_thin
    apply (frule partition_func_range)
     apply (simp (no_asm_simp))
    apply (elim conjE)
    apply (thin_tac "_ = Some _")+
    apply simp
    done
next
  case 5
  then show ?case
    apply -
    apply hypsubst_thin
    apply (frule partition_func_range)
     apply (simp (no_asm_simp))
    apply (elim conjE)
    apply (thin_tac "_ = Some _")+
    apply simp
    done
next
  case 6
  then show ?case
    apply -
    apply hypsubst_thin
    apply (frule partition_func_range)
     apply (simp (no_asm_simp))
    apply (elim conjE)
    apply (thin_tac "_ = Some _")+
    apply simp
    done
qed

declare pdqsort_loop.simps [simp del]

definition pdqsort_func ::
  "'a lessSwap \<Rightarrow> 'a list \<Rightarrow> nat \<Rightarrow> nat \<Rightarrow> nat \<Rightarrow> 'a list option" where
  "pdqsort_func Less data a b limit = pdqsort_loop Less data a b limit True True"

text \<open>
  \<^verbatim>\<open>sort.Slice(x, less)\<close>: \<^verbatim>\<open>length := rv.Len(); limit := bits.Len(uint(length));
  pdqsort_func(lessSwap{less, swap}, 0, length, limit)\<close>.
\<close>

definition sort_Slice :: "'a lessSwap \<Rightarrow> 'a list \<Rightarrow> 'a list option" where
  "sort_Slice Less x =
     (let len = length x; limit = bitsLen len
      in pdqsort_func Less x 0 len limit)"

section \<open>The listing service (service.go, ListAllRockets)\<close>

text \<open>
  \<^verbatim>\<open>strings.ToLower\<close>: a string of ASCII bytes has its letters \<open>A\<close> to \<open>Z\<close> lowered;
  any other string is mapped by the Unicode tables of the library
  (\<^verbatim>\<open>strings.Map(unicode.ToLower, s)\<close>), which the model takes as the parameter
  \<open>unicodeToLower\<close>.
\<close>

definition strings_ToLower :: "(string \<Rightarrow> string) \<Rightarrow> string \<Rightarrow> string" where
  "strings_ToLower unicodeToLower s =
     (let isASCII = list_all (\<lambda>c. of_char c < (128 :: nat)) s;
          hasUpper = list_ex (\<lambda>c. CHR ''A'' \<le> c \<and> c \<le> CHR ''Z'') s
      in if isASCII then
           (if \<not> hasUpper then s
            else map (\<lambda>c. if CHR ''A'' \<le> c \<and> c \<le> CHR ''Z''
                           then char_of (of_char c + (32 :: nat)) else c) s)
         else unicodeToLower s)"

text \<open>The index expression \<^verbatim>\<open>rockets[i]\<close>: a panic when \<open>i\<close> is out of range.\<close>

definition sliceIndex :: "'a list \<Rightarrow> nat \<Rightarrow> 'a option" where
  "sliceIndex xs i = (if i < length xs then Some (xs ! i) else None)"

text \<open>
  The closure passed to \<^verbatim>\<open>sort.Slice\<close>.  \<^verbatim>\<open>uuid.UUID.String\<close> and \<^verbatim>\<open>time.Time.Before\<close>
  are library functions: the parameters \<open>uuid_String\<close> and \<open>time_Before\<close>.  Strings
  compare byte by byte, speeds as signed integers.  The default case returns \<open>i < j\<close> at
  once, before the sort order is looked at.
\<close>

definition ListAllRockets_less ::
  "('id \<Rightarrow> string) \<Rightarrow> ('t \<Rightarrow> 't \<Rightarrow> bool) \<Rightarrow> (string \<Rightarrow> string) \<Rightarrow> string \<Rightarrow> string
     \<Rightarrow> ('id, 't) State lessSwap" where
  "ListAllRockets_less uuid_String time_Before unicodeToLower sortBy sortOrder rockets i j =
     (let field = strings_ToLower unicodeToLower sortBy;
          ordered = (\<lambda>less.
            if strings_ToLower unicodeToLower sortOrder = ''desc'' then \<not> less else less)
      in
      if field = ''id'' then do {
        ri \<leftarrow> sliceIndex rockets i; rj \<leftarrow> sliceIndex rockets j;
        Some (ordered (uuid_String (ID ri) < uuid_String (ID rj)))
      } else if field = ''type'' then do {
        ri \<leftarrow> sliceIndex rockets i; rj \<leftarrow> sliceIndex rockets j;
        Some (ordered (Type ri < Type rj))
      } else if field = ''speed'' then do {
        ri \<leftarrow> sliceIndex rockets i; rj \<leftarrow> sliceIndex rockets j;
        Some (ordered (CurrentSpeed ri <s CurrentSpeed rj))
      } else if field = ''mission'' then do {
        ri \<leftarrow> sliceIndex rockets i; rj \<leftarrow> sliceIndex rockets j;
        Some (ordered (Mission ri < Mission rj))
      } else if field = ''lastupdatetime'' then do {
        ri \<leftarrow> sliceIndex rockets i; rj \<leftarrow> sliceIndex rockets j;
        Some (ordered (time_Before (LastUpdateTime ri) (LastUpdateTime rj)))
      } else Some (i < j))"

text \<open>
  \<^verbatim>\<open>ListAllRockets(ctx, sortBy, sortOrder)\<close>.  The argument \<open>rockets\<close> is the slice that
  \<^verbatim>\<open>s.store.ListAllRockets()\<close> returned: the stored states, in the order in which Go
  went through the map.  \<open>Inr\<close> is the slice returned; \<open>Inl\<close> is a panic.
\<close>

definition ListAllRockets ::
  "('id \<Rightarrow> string) \<Rightarrow> ('t \<Rightarrow> 't \<Rightarrow> bool) \<Rightarrow> (string \<Rightarrow> string)
     \<Rightarrow> ('id, 't) State list \<Rightarrow> string \<Rightarrow> string \<Rightarrow> panic + ('id, 't) State list" where
  "ListAllRockets uuid_String time_Before unicodeToLower rockets sortBy sortOrder =
     (if sortBy = [] then Inr rockets
      else
        case sort_Slice
               (ListAllRockets_less uuid_String time_Before unicodeToLower sortBy sortOrder)
               rockets of
          None \<Rightarrow> Inl IndexOutOfRange
        | Some result \<Rightarrow> Inr result)"

text \<open>What the closure is when no case of its switch matches: \<^verbatim>\<open>return i < j\<close>.\<close>

definition byIndex :: "'a lessSwap" where
  "byIndex data i j = Some (i < j)"

section \<open>Calls in sequence\<close>

text \<open>
  The condition of the early return of \<^verbatim>\<open>ProcessMessage\<close>: the entity has a stored
  state and the message's number does not exceed the stored one.
\<close>

definition dropped ::
  "('id::zero, 't::zero) InMemoryRocketStore \<Rightarrow> ('id, 't) TelemetryMessage \<Rightarrow> bool" where
  "dropped store msg =
     (let (currentState, exists) = GetRocketByID store (Channel (Metadata msg))
      in exists \<and> MessageNumber (Metadata msg) \<le>s LastProcessedMessageNumber currentState)"

text \<open>
  The caller's precondition on a message: the payload pointers that the switch of
  \<^verbatim>\<open>ProcessMessage\<close> dereferences for the message's type are not \<^verbatim>\<open>nil\<close>.
\<close>

definition payloadPresent :: "('id, 't) TelemetryMessage \<Rightarrow> bool" where
  "payloadPresent msg =
     (let mt = MessageType (Metadata msg); m = Message msg
      in if mt = MessageTypeLaunched then
           Message.Type m \<noteq> None \<and> LaunchSpeed m \<noteq> None \<and> Message.Mission m \<noteq> None
         else if mt = MessageTypeSpeedIncreased then By m \<noteq> None
         else if mt = MessageTypeSpeedDecreased then By m \<noteq> None
         else if mt = MessageTypeExploded then True
         else if mt = MessageTypeMissionChanged then NewMission m \<noteq> None
         else True)"

text \<open>
  The store after one call.  A panic is raised before \<^verbatim>\<open>SaveRocket\<close> is reached, so
  a call that panics leaves the store as it was.
\<close>

definition afterCall ::
  "('id::zero, 't::zero) InMemoryRocketStore \<Rightarrow> ('id, 't) TelemetryMessage
     \<Rightarrow> ('id, 't) InMemoryRocketStore" where
  "afterCall store msg = (case ProcessMessage store msg of Inl p \<Rightarrow> store | Inr store' \<Rightarrow> store')"

text \<open>
  The stores seen while the messages are processed one after the other: the store before
  the first call, then the store after each call.
\<close>

fun storesAfter ::
  "('id::zero, 't::zero) InMemoryRocketStore \<Rightarrow> ('id, 't) TelemetryMessage list
     \<Rightarrow> ('id, 't) InMemoryRocketStore list" where
  "storesAfter store [] = [store]"
| "storesAfter store (msg # msgs) = store # storesAfter (afterCall store msg) msgs"

text \<open>The messages of such a run that were not dropped, in the order of delivery.\<close>

fun notDropped ::
  "('id::zero, 't::zero) InMemoryRocketStore \<Rightarrow> ('id, 't) TelemetryMessage list
     \<Rightarrow> ('id, 't) TelemetryMessage list" where
  "notDropped store [] = []"
| "notDropped store (msg # msgs) =
     (if dropped store msg then [] else [msg]) @ notDropped (afterCall store msg) msgs"

text \<open>
  \<^verbatim>\<open>SaveRocket\<close> is the only writer of the map and stores a state under its own
  \<^verbatim>\<open>ID\<close>: in every store built by the program each state sits under its identifier.
\<close>

definition keyedByID :: "('id, 't) InMemoryRocketStore \<Rightarrow> bool" where
  "keyedByID store = (\<forall>k st. store k = Some st \<longrightarrow> ID st = k)"

text \<open>The number of a message, read as the signed integer it is.\<close>

definition seqOf :: "('id, 't) TelemetryMessage \<Rightarrow> int" where
  "seqOf msg = sint (MessageNumber (Metadata msg))"

section \<open>Orders and ranges for the correctness of the sort\<close>

text \<open>
  A closure that compares the elements at two indices by a key: it reads the two
  elements, which panics out of range, and applies \<open>lt\<close> to their keys.
\<close>

definition keyed :: "('a \<Rightarrow> 'k) \<Rightarrow> ('k \<Rightarrow> 'k \<Rightarrow> bool) \<Rightarrow> 'a lessSwap \<Rightarrow> bool" where
  "keyed key lt Less \<longleftrightarrow>
     (\<forall>data i j. Less data i j =
        (if i < length data \<and> j < length data
         then Some (lt (key (data ! i)) (key (data ! j))) else None))"

text \<open>
  What the sort needs of \<open>lt\<close>: whatever it answers on two keys agrees with the linear
  order of the keys.  Both \<open>(<)\<close> and \<open>(\<le>)\<close> do; the second is the negation of a strict
  comparison, which is what a descending listing passes to \<^verbatim>\<open>sort.Slice\<close>.
\<close>

definition compat :: "('k::linorder \<Rightarrow> 'k \<Rightarrow> bool) \<Rightarrow> bool" where
  "compat lt \<longleftrightarrow> (\<forall>x y. (lt x y \<longrightarrow> x \<le> y) \<and> (\<not> lt x y \<longrightarrow> y \<le> x))"

text \<open>
  \<open>within a b ks ks'\<close>: the two lists of keys agree outside of \<open>[a, b)\<close>, and every key of
  \<open>ks'\<close> in that range is a key of \<open>ks\<close> in that range.
  \<open>sortedIn a b ks\<close>: the keys at \<open>[a, b)\<close> are in non-decreasing order.
  \<open>step key a b data data'\<close>: \<open>data'\<close> is a permutation of \<open>data\<close> whose keys stay within
  \<open>[a, b)\<close>.
  \<open>lbound a b ks\<close>: every key left of \<open>a\<close> is at most every key at \<open>[a, b)\<close>.
\<close>

definition within :: "nat \<Rightarrow> nat \<Rightarrow> 'k list \<Rightarrow> 'k list \<Rightarrow> bool" where
  "within a b ks ks' \<longleftrightarrow>
     length ks' = length ks
     \<and> (\<forall>k. k < a \<or> b \<le> k \<longrightarrow> ks' ! k = ks ! k)
     \<and> (\<forall>k. a \<le> k \<and> k < b \<longrightarrow> (\<exists>k'. a \<le> k' \<and> k' < b \<and> ks' ! k = ks ! k'))"

definition sortedIn :: "nat \<Rightarrow> nat \<Rightarrow> ('k::linorder) list \<Rightarrow> bool" where
  "sortedIn a b ks \<longleftrightarrow> (\<forall>k l. a \<le> k \<and> k \<le> l \<and> l < b \<longrightarrow> ks ! k \<le> ks ! l)"

definition step :: "('a \<Rightarrow> 'k) \<Rightarrow> nat \<Rightarrow> nat \<Rightarrow> 'a list \<Rightarrow> 'a list \<Rightarrow> bool" where
  "step key a b data data' \<longleftrightarrow>
     mset data' = mset data \<and> within a b (map key data) (map key data')"

definition lbound :: "nat \<Rightarrow> nat \<Rightarrow> ('k::linorder) list \<Rightarrow> bool" where
  "lbound a b ks \<longleftrightarrow> (\<forall>p r. p < a \<and> a \<le> r \<and> r < b \<longrightarrow> ks ! p \<le> ks ! r)"

text \<open>
  The heap of \<^verbatim>\<open>heapSort_func\<close> lies at \<open>first + [0, hi)\<close>; the children of node \<open>r\<close> are
  \<open>2 * r + 1\<close> and \<open>2 * r + 2\<close>.  \<open>heapFrom lo hi first ks\<close>: no child exceeds its parent,
  for the parents from \<open>lo\<close> on.  \<open>heapExcept lo root hi first ks\<close>: the same but for the
  node \<open>root\<close>, whose children do not exceed its parent.
\<close>

definition heapFrom :: "nat \<Rightarrow> nat \<Rightarrow> nat \<Rightarrow> ('k::linorder) list \<Rightarrow> bool" where
  "heapFrom lo hi first ks \<longleftrightarrow>
     (\<forall>r c. lo \<le> r \<and> c < hi \<and> (c = 2 * r + 1 \<or> c = 2 * r + 2)
        \<longrightarrow> ks ! (first + c) \<le> ks ! (first + r))"

definition heapExcept :: "nat \<Rightarrow> nat \<Rightarrow> nat \<Rightarrow> nat \<Rightarrow> ('k::linorder) list \<Rightarrow> bool" where
  "heapExcept lo root hi first ks \<longleftrightarrow>
     (\<forall>r c. lo \<le> r \<and> r \<noteq> root \<and> c < hi \<and> (c = 2 * r + 1 \<or> c = 2 * r + 2)
        \<longrightarrow> ks ! (first + c) \<le> ks ! (first + r))
     \<and> (\<forall>p c. lo \<le> p \<and> (root = 2 * p + 1 \<or> root = 2 * p + 2) \<and> c < hi
          \<and> (c = 2 * root + 1 \<or> c = 2 * root + 2)
        \<longrightarrow> ks ! (first + c) \<le> ks ! (first + p))"

text \<open>
  \<open>parted a mid b ks\<close>: the key at \<open>mid\<close> is at least the keys at \<open>[a, mid)\<close> and at
  most the keys at \<open>(mid, b)\<close>.
\<close>

definition parted :: "nat \<Rightarrow> nat \<Rightarrow> nat \<Rightarrow> ('k::linorder) list \<Rightarrow> bool" where
  "parted a mid b ks \<longleftrightarrow>
     (\<forall>k. a \<le> k \<and> k < mid \<longrightarrow> ks ! k \<le> ks ! mid)
     \<and> (\<forall>k. mid < k \<and> k < b \<longrightarrow> ks ! mid \<le> ks ! k)"

section \<open>Properties of ProcessMessage\<close>

lemmas eval_defs = ProcessMessage_def switchMessageType_def GetRocketByID_def SaveRocket_def zeroState_def
  MessageTypeExploded_def MessageTypeLaunched_def MessageTypeMissionChanged_def
  MessageTypeSpeedDecreased_def MessageTypeSpeedIncreased_def StatusLaunched_def
  StatusExploded_def word_sle_eq word_sless_alt

lemma dropped_Some:
  "store (Channel (Metadata msg)) = Some cur \<Longrightarrow>
   dropped store msg = (MessageNumber (Metadata msg) \<le>s LastProcessedMessageNumber cur)"
  by (simp add: dropped_def GetRocketByID_def)

lemma dropped_None:
  "store (Channel (Metadata msg)) = None \<Longrightarrow> \<not> dropped store msg"
  by (simp add: dropped_def GetRocketByID_def)

lemma ProcessMessage_dropped:
  "dropped store msg \<Longrightarrow> ProcessMessage store msg = Inr store"
  by (simp add: ProcessMessage_def dropped_def split: prod.splits)

text \<open>With its payload present, a call returns: no dereference panics.\<close>

lemma switchMessageType_frame:
  assumes "switchMessageType newState msg = Inr saved"
  shows "ID saved = ID newState
       \<and> LastProcessedMessageNumber saved = LastProcessedMessageNumber newState
       \<and> LastUpdateTime saved = LastUpdateTime newState"
  using assms
  by (auto simp add: switchMessageType_def Let_def split: if_splits option.splits)

text \<open>With its payload present, the switch does not panic.\<close>

lemma switchMessageType_returns:
  "payloadPresent msg \<Longrightarrow> \<exists>saved. switchMessageType newState msg = Inr saved"
  by (auto simp add: switchMessageType_def payloadPresent_def Let_def)

text \<open>
  The value of \<^verbatim>\<open>newState\<close> when the switch is entered: the stored state, or the new
  \<^verbatim>\<open>UNKNOWN\<close> one, with the message's number and time.
\<close>

lemma ProcessMessage_not_dropped:
  assumes "\<not> dropped store msg"
  shows "ProcessMessage store msg =
     (case switchMessageType
         ((case store (Channel (Metadata msg)) of
             None \<Rightarrow> zeroState\<lparr>ID := Channel (Metadata msg), Status := ''UNKNOWN''\<rparr>
           | Some cur \<Rightarrow> cur)
          \<lparr>LastProcessedMessageNumber := MessageNumber (Metadata msg),
           LastUpdateTime := MessageTime (Metadata msg)\<rparr>) msg of
        Inl p \<Rightarrow> Inl p
      | Inr saved \<Rightarrow> Inr (SaveRocket store saved))"
  using assms
  by (cases "store (Channel (Metadata msg))")
    (simp_all add: ProcessMessage_def dropped_def GetRocketByID_def)

lemma ProcessMessage_returns:
  "payloadPresent msg \<Longrightarrow> \<exists>s1. ProcessMessage store msg = Inr s1"
proof (cases "dropped store msg")
  case True
  then show ?thesis by (simp add: ProcessMessage_dropped)
next
  case False
  assume "payloadPresent msg"
  from switchMessageType_returns [OF this] show ?thesis
    unfolding ProcessMessage_not_dropped [OF False] by (metis sum.simps(6))
qed

text \<open>
  A call that returns without dropping the message has saved one state: under the
  identifier of the stored state (or the message's channel for a new rocket), carrying the
  message's number and time.
\<close>

lemma ProcessMessage_applied:
  assumes "\<not> dropped store msg" and "ProcessMessage store msg = Inr s1"
  shows "\<exists>st. s1 = SaveRocket store st
           \<and> ID st = (case store (Channel (Metadata msg)) of
                        None \<Rightarrow> Channel (Metadata msg) | Some cur \<Rightarrow> ID cur)
           \<and> LastProcessedMessageNumber st = MessageNumber (Metadata msg)
           \<and> LastUpdateTime st = MessageTime (Metadata msg)"
proof -
  let ?ns = "(case store (Channel (Metadata msg)) of
                None \<Rightarrow> zeroState\<lparr>ID := Channel (Metadata msg), Status := ''UNKNOWN''\<rparr>
              | Some cur \<Rightarrow> cur)
             \<lparr>LastProcessedMessageNumber := MessageNumber (Metadata msg),
              LastUpdateTime := MessageTime (Metadata msg)\<rparr>"
  from assms(2) obtain saved where
    sw: "switchMessageType ?ns msg = Inr saved" and s1: "s1 = SaveRocket store saved"
    unfolding ProcessMessage_not_dropped [OF assms(1)]
    by (cases "switchMessageType ?ns msg") auto
  from switchMessageType_frame [OF sw] have
    "ID saved = (case store (Channel (Metadata msg)) of
                        None \<Rightarrow> Channel (Metadata msg) | Some cur \<Rightarrow> ID cur)"
    "LastProcessedMessageNumber saved = MessageNumber (Metadata msg)"
    "LastUpdateTime saved = MessageTime (Metadata msg)"
    by (simp_all split: option.splits)
  with s1 show ?thesis by blast
qed

text \<open>The saved state is computed from the stored state of the message's channel alone.\<close>

lemma ProcessMessage_same_lookup:
  assumes "store' (Channel (Metadata msg)) = store (Channel (Metadata msg))"
    and "\<not> dropped store msg"
    and "ProcessMessage store msg = Inr s1"
  shows "\<exists>saved. s1 = SaveRocket store saved
           \<and> ProcessMessage store' msg = Inr (SaveRocket store' saved)"
proof -
  let ?ns = "(case store (Channel (Metadata msg)) of
                None \<Rightarrow> zeroState\<lparr>ID := Channel (Metadata msg), Status := ''UNKNOWN''\<rparr>
              | Some cur \<Rightarrow> cur)
             \<lparr>LastProcessedMessageNumber := MessageNumber (Metadata msg),
              LastUpdateTime := MessageTime (Metadata msg)\<rparr>"
  from assms(3) obtain saved where
    sw: "switchMessageType ?ns msg = Inr saved" and s1: "s1 = SaveRocket store saved"
    unfolding ProcessMessage_not_dropped [OF assms(2)]
    by (cases "switchMessageType ?ns msg") auto
  have "\<not> dropped store' msg"
    using assms(1,2) by (simp add: dropped_def GetRocketByID_def)
  from ProcessMessage_not_dropped [OF this]
  have "ProcessMessage store' msg = Inr (SaveRocket store' saved)"
    using sw assms(1) by simp
  with s1 show ?thesis by blast
qed

lemma keyedByID_empty: "keyedByID NewInMemoryRocketStore"
  by (simp add: keyedByID_def NewInMemoryRocketStore_def)

lemma keyedByID_SaveRocket: "keyedByID store \<Longrightarrow> keyedByID (SaveRocket store st)"
  by (simp add: keyedByID_def SaveRocket_def)

lemma keyedByID_afterCall:
  assumes "keyedByID store"
  shows "keyedByID (afterCall store msg)"
proof (cases "ProcessMessage store msg")
  case (Inl p)
  then show ?thesis using assms by (simp add: afterCall_def)
next
  case (Inr s1)
  show ?thesis
  proof (cases "dropped store msg")
    case True
    then show ?thesis using assms by (simp add: afterCall_def ProcessMessage_dropped)
  next
    case False
    from ProcessMessage_applied [OF False Inr] obtain st where "s1 = SaveRocket store st"
      by blast
    then show ?thesis using assms Inr by (simp add: afterCall_def keyedByID_SaveRocket)
  qed
qed

lemma afterCall_dropped: "dropped store msg \<Longrightarrow> afterCall store msg = store"
  by (simp add: afterCall_def ProcessMessage_dropped)

lemma afterCall_applied:
  assumes "\<not> dropped store msg" and "payloadPresent msg" and "keyedByID store"
  shows "\<exists>st. afterCall store msg = store(Channel (Metadata msg) \<mapsto> st)
           \<and> LastProcessedMessageNumber st = MessageNumber (Metadata msg)"
proof -
  from ProcessMessage_returns [OF assms(2)] obtain s1 where
    s1: "ProcessMessage store msg = Inr s1" by blast
  from ProcessMessage_applied [OF assms(1) s1] obtain st where
    st: "s1 = SaveRocket store st"
      "ID st = (case store (Channel (Metadata msg)) of
                  None \<Rightarrow> Channel (Metadata msg) | Some cur \<Rightarrow> ID cur)"
      "LastProcessedMessageNumber st = MessageNumber (Metadata msg)"
    by blast
  have "ID st = Channel (Metadata msg)"
    using st(2) assms(3) by (auto simp add: keyedByID_def split: option.splits)
  then show ?thesis
    using s1 st(1,3) by (auto simp add: afterCall_def SaveRocket_def)
qed

text \<open>One call never lowers the stored number of any entity.\<close>

lemma afterCall_mono:
  assumes "keyedByID store" and "store rid = Some st"
  shows "\<exists>st'. afterCall store msg rid = Some st'
            \<and> LastProcessedMessageNumber st \<le>s LastProcessedMessageNumber st'"
proof (cases "ProcessMessage store msg")
  case (Inl p)
  then show ?thesis using assms by (simp add: afterCall_def)
next
  case (Inr s1)
  show ?thesis
  proof (cases "dropped store msg")
    case True
    then show ?thesis using assms by (simp add: afterCall_dropped)
  next
    case False
    from ProcessMessage_applied [OF False Inr] obtain new where
      new: "s1 = SaveRocket store new"
      "ID new = (case store (Channel (Metadata msg)) of
                  None \<Rightarrow> Channel (Metadata msg) | Some cur \<Rightarrow> ID cur)"
      "LastProcessedMessageNumber new = MessageNumber (Metadata msg)"
      by blast
    have idnew: "ID new = Channel (Metadata msg)"
      using new(2) assms(1) by (auto simp add: keyedByID_def split: option.splits)
    show ?thesis
    proof (cases "Channel (Metadata msg) = rid")
      case True
      with False assms(2) have "\<not> MessageNumber (Metadata msg) \<le>s LastProcessedMessageNumber st"
        by (simp add: dropped_Some)
      then have "LastProcessedMessageNumber st \<le>s MessageNumber (Metadata msg)"
        by (simp add: word_sle_eq)
      then show ?thesis
        using Inr new(1,3) idnew True by (simp add: afterCall_def SaveRocket_def)
    next
      case neq: False
      then show ?thesis
        using Inr new(1) idnew assms(2) by (simp add: afterCall_def SaveRocket_def)
    qed
  qed
qed

lemma storesAfter_step:
  "k < length msgs \<Longrightarrow>
   storesAfter store msgs ! Suc k = afterCall (storesAfter store msgs ! k) (msgs ! k)"
proof (induction msgs arbitrary: store k)
  case Nil
  then show ?case by simp
next
  case (Cons m ms)
  show ?case
  proof (cases k)
    case 0
    then show ?thesis by (cases ms) simp_all
  next
    case (Suc j)
    with Cons.prems have "j < length ms" by simp
    from Cons.IH [OF this] show ?thesis using Suc by simp
  qed
qed

lemma keyedByID_storesAfter:
  "keyedByID store \<Longrightarrow> k \<le> length msgs \<Longrightarrow> keyedByID (storesAfter store msgs ! k)"
proof (induction msgs arbitrary: store k)
  case Nil
  then show ?case by simp
next
  case (Cons m ms)
  show ?case
  proof (cases k)
    case 0
    then show ?thesis using Cons.prems by simp
  next
    case (Suc j)
    then show ?thesis using Cons.prems Cons.IH [of "afterCall store m" j]
      by (simp add: keyedByID_afterCall)
  qed
qed

lemma last_storesAfter_Cons:
  "last (storesAfter store (m # ms)) = last (storesAfter (afterCall store m) ms)"
  by (cases ms) simp_all

text \<open>Every message that is kept has a number above the one stored at the start.\<close>

lemma notDropped_above:
  assumes "keyedByID store" and "store rid = Some st"
    and "\<forall>m\<in>set msgs. Channel (Metadata m) = rid \<and> payloadPresent m"
  shows "\<forall>m\<in>set (notDropped store msgs). sint (LastProcessedMessageNumber st) < seqOf m"
  using assms
proof (induction msgs arbitrary: store st)
  case Nil
  then show ?case by simp
next
  case (Cons m ms)
  have ch: "Channel (Metadata m) = rid" and pp: "payloadPresent m" using Cons.prems(3) by simp_all
  have rest: "\<forall>m\<in>set ms. Channel (Metadata m) = rid \<and> payloadPresent m"
    using Cons.prems(3) by simp
  show ?case
  proof (cases "dropped store m")
    case True
    then show ?thesis
      using Cons.IH [OF Cons.prems(1,2) rest] by (simp add: afterCall_dropped)
  next
    case False
    from afterCall_applied [OF False pp Cons.prems(1)] obtain new where
      new: "afterCall store m = store(rid \<mapsto> new)"
        "LastProcessedMessageNumber new = MessageNumber (Metadata m)"
      using ch by auto
    have lt: "sint (LastProcessedMessageNumber st) < seqOf m"
      using False Cons.prems(2) ch by (simp add: dropped_Some word_sle_eq seqOf_def)
    have inv': "keyedByID (afterCall store m)" using Cons.prems(1) by (rule keyedByID_afterCall)
    have "afterCall store m rid = Some new" using new(1) by simp
    from Cons.IH [OF inv' this rest]
    have "\<forall>x\<in>set (notDropped (afterCall store m) ms). seqOf m < seqOf x"
      using new(2) by (simp add: seqOf_def)
    then show ?thesis using lt False by auto
  qed
qed

text \<open>
  Starting from a stored state, the number stored at the end is the largest of the
  starting number and the numbers of the kept messages.
\<close>

lemma final_seq:
  assumes "keyedByID store" and "store rid = Some st"
    and "\<forall>m\<in>set msgs. Channel (Metadata m) = rid \<and> payloadPresent m"
  shows "\<exists>st'. last (storesAfter store msgs) rid = Some st'
           \<and> sint (LastProcessedMessageNumber st') =
               Max (insert (sint (LastProcessedMessageNumber st))
                      (set (map seqOf (notDropped store msgs))))"
  using assms
proof (induction msgs arbitrary: store st)
  case Nil
  then show ?case by simp
next
  case (Cons m ms)
  have ch: "Channel (Metadata m) = rid" and pp: "payloadPresent m" using Cons.prems(3) by simp_all
  have rest: "\<forall>m\<in>set ms. Channel (Metadata m) = rid \<and> payloadPresent m"
    using Cons.prems(3) by simp
  show ?case
  proof (cases "dropped store m")
    case True
    then show ?thesis
      using Cons.IH [OF Cons.prems(1,2) rest]
      by (simp add: afterCall_dropped last_storesAfter_Cons del: storesAfter.simps)
  next
    case False
    from afterCall_applied [OF False pp Cons.prems(1)] obtain new where
      new: "afterCall store m = store(rid \<mapsto> new)"
        "LastProcessedMessageNumber new = MessageNumber (Metadata m)"
      using ch by auto
    have lt: "sint (LastProcessedMessageNumber st) < seqOf m"
      using False Cons.prems(2) ch by (simp add: dropped_Some word_sle_eq seqOf_def)
    have inv': "keyedByID (afterCall store m)" using Cons.prems(1) by (rule keyedByID_afterCall)
    have "afterCall store m rid = Some new" using new(1) by simp
    from Cons.IH [OF inv' this rest] obtain st' where
      st': "last (storesAfter (afterCall store m) ms) rid = Some st'"
        "sint (LastProcessedMessageNumber st') =
           Max (insert (seqOf m) (set (map seqOf (notDropped (afterCall store m) ms))))"
      using new(2) by (auto simp add: seqOf_def)
    let ?S = "insert (seqOf m) (set (map seqOf (notDropped (afterCall store m) ms)))"
    have "Max (insert (sint (LastProcessedMessageNumber st)) ?S) = Max ?S"
    proof -
      have "finite ?S" "?S \<noteq> {}" by simp_all
      then have "Max (insert (sint (LastProcessedMessageNumber st)) ?S)
                  = max (sint (LastProcessedMessageNumber st)) (Max ?S)"
        by (rule Max_insert)
      moreover have "seqOf m \<le> Max ?S" by simp
      ultimately show ?thesis using lt by linarith
    qed
    then show ?thesis
      using st' False by (simp add: last_storesAfter_Cons del: storesAfter.simps)
  qed
qed

section \<open>Claims about ProcessMessage\<close>

text \<open>
  C1 (stale drop).  For every stored state of an entity and every message for that entity
  whose number is less than or equal to the stored \<^verbatim>\<open>LastProcessedMessageNumber\<close>,
  \<^verbatim>\<open>ProcessMessage\<close> returns a \<^verbatim>\<open>nil\<close> error and the store it leaves is the store
  it was given: no state is changed and \<^verbatim>\<open>SaveRocket\<close> is not reached.
\<close>

theorem stale_drop:
  assumes "store (Channel (Metadata msg)) = Some st"
    and "MessageNumber (Metadata msg) \<le>s LastProcessedMessageNumber st"
  shows "ProcessMessage store msg = Inr store"
  using assms by (simp add: ProcessMessage_def GetRocketByID_def)

text \<open>The spec's example: the stored number is 5, the message's is 3.\<close>

theorem stale_drop_witness:
  "ProcessMessage
     [(7::nat) \<mapsto> \<lparr>ID = 7, Type = ''Falcon-9'', CurrentSpeed = 500, Mission = ''ARTEMIS'',
        Status = ''LAUNCHED'', Reason = None, LastUpdateTime = (42::int),
        LastProcessedMessageNumber = 5\<rparr>]
     \<lparr>Metadata = \<lparr>Channel = (7::nat), MessageNumber = 3, MessageTime = (60::int),
                   MessageType = ''RocketExploded''\<rparr>,
      Message = \<lparr>By = None, LaunchSpeed = None, Mission = None,
                  NewMission = None, Reason = Some ''fuel leak'', Type = None\<rparr>\<rparr>
   = Inr [7 \<mapsto> \<lparr>ID = 7, Type = ''Falcon-9'', CurrentSpeed = 500, Mission = ''ARTEMIS'',
        Status = ''LAUNCHED'', Reason = None, LastUpdateTime = (42::int),
        LastProcessedMessageNumber = 5\<rparr>]"
  using stale_drop [of
     "[(7::nat) \<mapsto> \<lparr>ID = 7, Type = ''Falcon-9'', CurrentSpeed = 500, Mission = ''ARTEMIS'',
        Status = ''LAUNCHED'', Reason = None, LastUpdateTime = (42::int),
        LastProcessedMessageNumber = 5\<rparr>]"
     "\<lparr>Metadata = \<lparr>Channel = (7::nat), MessageNumber = 3, MessageTime = (60::int),
                   MessageType = ''RocketExploded''\<rparr>,
      Message = \<lparr>By = None, LaunchSpeed = None, Mission = None,
                  NewMission = None, Reason = Some ''fuel leak'', Type = None\<rparr>\<rparr>"
     "\<lparr>ID = 7, Type = ''Falcon-9'', CurrentSpeed = 500, Mission = ''ARTEMIS'',
        Status = ''LAUNCHED'', Reason = None, LastUpdateTime = (42::int),
        LastProcessedMessageNumber = 5\<rparr>"]
  by (simp add: word_sle_eq)

text \<open>
  C3 (launch transition).  For an identifier with no stored state, a Launched message with
  type "Falcon-9", launch speed 1000, mission "ARTEMIS", number 1 and time \<open>T\<close> leaves
  exactly the state \<open>{ID, Falcon-9, 1000, ARTEMIS, LAUNCHED, no reason, T, 1}\<close> stored under
  the identifier.
\<close>

theorem launch_transition:
  assumes "store rid = None"
    and "Metadata msg = \<lparr>Channel = rid, MessageNumber = 1, MessageTime = T,
                           MessageType = MessageTypeLaunched\<rparr>"
    and "Message.Type (Message msg) = Some ''Falcon-9''"
    and "LaunchSpeed (Message msg) = Some 1000"
    and "Message.Mission (Message msg) = Some ''ARTEMIS''"
  shows "ProcessMessage store msg =
     Inr (store(rid \<mapsto> \<lparr>ID = rid, Type = ''Falcon-9'', CurrentSpeed = 1000,
                          Mission = ''ARTEMIS'', Status = ''LAUNCHED'', Reason = None,
                          LastUpdateTime = T, LastProcessedMessageNumber = 1\<rparr>))"
  using assms
  by (simp add: ProcessMessage_def switchMessageType_def GetRocketByID_def zeroState_def
      SaveRocket_def StatusLaunched_def)

theorem launch_transition_witness:
  "ProcessMessage (Map.empty :: (nat, int) InMemoryRocketStore)
     \<lparr>Metadata = \<lparr>Channel = (7::nat), MessageNumber = 1, MessageTime = (42::int),
                   MessageType = MessageTypeLaunched\<rparr>,
      Message = \<lparr>By = None, LaunchSpeed = Some 1000, Mission = Some ''ARTEMIS'',
                  NewMission = None, Reason = None, Type = Some ''Falcon-9''\<rparr>\<rparr>
   = Inr [7 \<mapsto> \<lparr>ID = 7, Type = ''Falcon-9'', CurrentSpeed = 1000, Mission = ''ARTEMIS'',
        Status = ''LAUNCHED'', Reason = None, LastUpdateTime = (42::int),
        LastProcessedMessageNumber = 1\<rparr>]"
  using launch_transition [of "(Map.empty :: (nat, int) InMemoryRocketStore)" 7
     "\<lparr>Metadata = \<lparr>Channel = (7::nat), MessageNumber = 1, MessageTime = (42::int),
                   MessageType = MessageTypeLaunched\<rparr>,
      Message = \<lparr>By = None, LaunchSpeed = Some 1000, Mission = Some ''ARTEMIS'',
                  NewMission = None, Reason = None, Type = Some ''Falcon-9''\<rparr>\<rparr>" 42]
  by simp

text \<open>
  C4 (explosion).  For every stored state and every accepted Exploded message with reason
  "fuel leak", the state saved has speed 0, status EXPLODED and reason "fuel leak",
  whatever the speed was; it carries the message's number and time, and its other fields
  are those of the stored state.
\<close>

theorem explosion_effect:
  assumes "store (Channel (Metadata msg)) = Some st"
    and "LastProcessedMessageNumber st <s MessageNumber (Metadata msg)"
    and "MessageType (Metadata msg) = MessageTypeExploded"
    and "Message.Reason (Message msg) = Some ''fuel leak''"
  shows "ProcessMessage store msg =
     Inr (SaveRocket store
            (st\<lparr>LastProcessedMessageNumber := MessageNumber (Metadata msg),
                LastUpdateTime := MessageTime (Metadata msg),
                CurrentSpeed := 0, Status := ''EXPLODED'', Reason := Some ''fuel leak''\<rparr>))"
  using assms
  by (simp add: ProcessMessage_def switchMessageType_def GetRocketByID_def
      MessageTypeExploded_def MessageTypeLaunched_def MessageTypeSpeedIncreased_def
      MessageTypeSpeedDecreased_def StatusExploded_def word_sle_eq word_sless_alt)

theorem explosion_effect_witness:
  "ProcessMessage
     [(7::nat) \<mapsto> \<lparr>ID = 7, Type = ''Falcon-9'', CurrentSpeed = 1300, Mission = ''ARTEMIS'',
        Status = ''LAUNCHED'', Reason = None, LastUpdateTime = (42::int),
        LastProcessedMessageNumber = 3\<rparr>]
     \<lparr>Metadata = \<lparr>Channel = (7::nat), MessageNumber = 4, MessageTime = (50::int),
                   MessageType = ''RocketExploded''\<rparr>,
      Message = \<lparr>By = None, LaunchSpeed = None, Mission = None,
                  NewMission = None, Reason = Some ''fuel leak'', Type = None\<rparr>\<rparr>
   = Inr [7 \<mapsto> \<lparr>ID = 7, Type = ''Falcon-9'', CurrentSpeed = 0, Mission = ''ARTEMIS'',
        Status = ''EXPLODED'', Reason = Some ''fuel leak'', LastUpdateTime = (50::int),
        LastProcessedMessageNumber = 4\<rparr>]"
  using explosion_effect [of
     "[(7::nat) \<mapsto> \<lparr>ID = 7, Type = ''Falcon-9'', CurrentSpeed = 1300, Mission = ''ARTEMIS'',
        Status = ''LAUNCHED'', Reason = None, LastUpdateTime = (42::int),
        LastProcessedMessageNumber = 3\<rparr>]"
     "\<lparr>Metadata = \<lparr>Channel = (7::nat), MessageNumber = 4, MessageTime = (50::int),
                   MessageType = ''RocketExploded''\<rparr>,
      Message = \<lparr>By = None, LaunchSpeed = None, Mission = None,
                  NewMission = None, Reason = Some ''fuel leak'', Type = None\<rparr>\<rparr>"]
  by (simp add: MessageTypeExploded_def SaveRocket_def word_sless_alt)

text \<open>
  C5 (speed arithmetic).  For every entity whose stored speed is 1000, an accepted
  SpeedIncreased by 500 (number 2) followed by a SpeedDecreased by 200 (number 3) leaves
  the stored speed 1300.  The speed is a signed 64-bit integer and a decrease can take it
  below zero: a further SpeedDecreased by 2000 leaves it at -700.
\<close>

theorem speed_arithmetic:
  assumes "store rid = Some st" and "ID st = rid"
    and "CurrentSpeed st = 1000"
    and "LastProcessedMessageNumber st <s 2"
    and "Metadata m1 = \<lparr>Channel = rid, MessageNumber = 2, MessageTime = t1,
                          MessageType = MessageTypeSpeedIncreased\<rparr>"
    and "By (Message m1) = Some 500"
    and "Metadata m2 = \<lparr>Channel = rid, MessageNumber = 3, MessageTime = t2,
                          MessageType = MessageTypeSpeedDecreased\<rparr>"
    and "By (Message m2) = Some 200"
    and "Metadata m3 = \<lparr>Channel = rid, MessageNumber = 4, MessageTime = t3,
                          MessageType = MessageTypeSpeedDecreased\<rparr>"
    and "By (Message m3) = Some 2000"
  shows "\<exists>s1 s2 s3 st2 st3.
           ProcessMessage store m1 = Inr s1 \<and> ProcessMessage s1 m2 = Inr s2
         \<and> s2 rid = Some st2 \<and> CurrentSpeed st2 = 1300
         \<and> ProcessMessage s2 m3 = Inr s3
         \<and> s3 rid = Some st3 \<and> sint (CurrentSpeed st3) = - 700"
proof -
  let ?st1 = "st\<lparr>LastProcessedMessageNumber := 2, LastUpdateTime := t1, CurrentSpeed := 1500\<rparr>"
  let ?st2 = "?st1\<lparr>LastProcessedMessageNumber := 3, LastUpdateTime := t2, CurrentSpeed := 1300\<rparr>"
  let ?st3 = "?st2\<lparr>LastProcessedMessageNumber := 4, LastUpdateTime := t3,
                    CurrentSpeed := 1300 - 2000\<rparr>"
  have not_stale: "\<not> 2 \<le>s LastProcessedMessageNumber st"
    using assms(4) by (simp add: word_sle_eq word_sless_alt)
  have p1: "ProcessMessage store m1 = Inr (store(rid \<mapsto> ?st1))"
    using assms(1,2,3,5,6) not_stale
    by (simp add: ProcessMessage_def switchMessageType_def GetRocketByID_def SaveRocket_def
        MessageTypeLaunched_def MessageTypeSpeedIncreased_def)
  have p2: "ProcessMessage (store(rid \<mapsto> ?st1)) m2 = Inr (store(rid \<mapsto> ?st2))"
    using assms(2,7,8)
    by (simp add: ProcessMessage_def switchMessageType_def GetRocketByID_def SaveRocket_def
        word_sle_eq MessageTypeLaunched_def MessageTypeSpeedIncreased_def
        MessageTypeSpeedDecreased_def)
  have p3: "ProcessMessage (store(rid \<mapsto> ?st2)) m3 = Inr (store(rid \<mapsto> ?st3))"
    using assms(2,9,10)
    by (simp add: ProcessMessage_def switchMessageType_def GetRocketByID_def SaveRocket_def
        word_sle_eq MessageTypeLaunched_def MessageTypeSpeedIncreased_def
        MessageTypeSpeedDecreased_def)
  have neg: "sint (CurrentSpeed ?st3) = - 700" by simp
  show ?thesis
    using p1 p2 p3 neg by simp
qed

theorem speed_arithmetic_witness:
  "\<exists>s1 s2 s3 st2 st3.
     ProcessMessage
       [(7::nat) \<mapsto> \<lparr>ID = 7, Type = ''Falcon-9'', CurrentSpeed = 1000, Mission = ''ARTEMIS'',
        Status = ''LAUNCHED'', Reason = None, LastUpdateTime = (42::int),
        LastProcessedMessageNumber = 1\<rparr>]
       \<lparr>Metadata = \<lparr>Channel = (7::nat), MessageNumber = 2, MessageTime = (43::int),
                   MessageType = MessageTypeSpeedIncreased\<rparr>,
      Message = \<lparr>By = Some 500, LaunchSpeed = None, Mission = None,
                  NewMission = None, Reason = None, Type = None\<rparr>\<rparr> = Inr s1
   \<and> ProcessMessage s1
       \<lparr>Metadata = \<lparr>Channel = (7::nat), MessageNumber = 3, MessageTime = (44::int),
                   MessageType = MessageTypeSpeedDecreased\<rparr>,
      Message = \<lparr>By = Some 200, LaunchSpeed = None, Mission = None,
                  NewMission = None, Reason = None, Type = None\<rparr>\<rparr> = Inr s2
   \<and> s2 7 = Some st2 \<and> CurrentSpeed st2 = 1300
   \<and> ProcessMessage s2
       \<lparr>Metadata = \<lparr>Channel = (7::nat), MessageNumber = 4, MessageTime = (45::int),
                   MessageType = MessageTypeSpeedDecreased\<rparr>,
      Message = \<lparr>By = Some 2000, LaunchSpeed = None, Mission = None,
                  NewMission = None, Reason = None, Type = None\<rparr>\<rparr> = Inr s3
   \<and> s3 7 = Some st3 \<and> sint (CurrentSpeed st3) = - 700"
  using speed_arithmetic [of
       "[(7::nat) \<mapsto> \<lparr>ID = 7, Type = ''Falcon-9'', CurrentSpeed = 1000, Mission = ''ARTEMIS'',
        Status = ''LAUNCHED'', Reason = None, LastUpdateTime = (42::int),
        LastProcessedMessageNumber = 1\<rparr>]" 7
       "\<lparr>ID = 7, Type = ''Falcon-9'', CurrentSpeed = 1000, Mission = ''ARTEMIS'',
        Status = ''LAUNCHED'', Reason = None, LastUpdateTime = (42::int),
        LastProcessedMessageNumber = 1\<rparr>"
       "\<lparr>Metadata = \<lparr>Channel = (7::nat), MessageNumber = 2, MessageTime = (43::int),
                   MessageType = MessageTypeSpeedIncreased\<rparr>,
      Message = \<lparr>By = Some 500, LaunchSpeed = None, Mission = None,
                  NewMission = None, Reason = None, Type = None\<rparr>\<rparr>" 43
       "\<lparr>Metadata = \<lparr>Channel = (7::nat), MessageNumber = 3, MessageTime = (44::int),
                   MessageType = MessageTypeSpeedDecreased\<rparr>,
      Message = \<lparr>By = Some 200, LaunchSpeed = None, Mission = None,
                  NewMission = None, Reason = None, Type = None\<rparr>\<rparr>" 44
       "\<lparr>Metadata = \<lparr>Channel = (7::nat), MessageNumber = 4, MessageTime = (45::int),
                   MessageType = MessageTypeSpeedDecreased\<rparr>,
      Message = \<lparr>By = Some 2000, LaunchSpeed = None, Mission = None,
                  NewMission = None, Reason = None, Type = None\<rparr>\<rparr>" 45]
  by (simp add: word_sless_alt)

text \<open>
  C6 (dedup idempotence).  For every message, a second \<^verbatim>\<open>ProcessMessage\<close> of the same
  message (same channel, same number) on the store the first call left returns that store
  unchanged: processing it twice leaves what processing it once left.
\<close>

theorem dedup_idempotent:
  assumes "ProcessMessage store msg = Inr s1"
  shows "ProcessMessage s1 msg = Inr s1"
proof (cases "dropped store msg")
  case True
  then have "s1 = store" using assms by (simp add: ProcessMessage_dropped)
  then show ?thesis using assms by simp
next
  case False
  from ProcessMessage_applied [OF False assms] obtain st where
    st: "s1 = SaveRocket store st"
      "ID st = (case store (Channel (Metadata msg)) of
                  None \<Rightarrow> Channel (Metadata msg) | Some cur \<Rightarrow> ID cur)"
      "LastProcessedMessageNumber st = MessageNumber (Metadata msg)"
    by blast
  show ?thesis
  proof (cases "ID st = Channel (Metadata msg)")
    case True
    with st(1) have "s1 (Channel (Metadata msg)) = Some st" by (simp add: SaveRocket_def)
    then have "dropped s1 msg" using st(3) by (simp add: dropped_Some)
    then show ?thesis by (rule ProcessMessage_dropped)
  next
    case neq: False
    then obtain cur where cur: "store (Channel (Metadata msg)) = Some cur" "ID st = ID cur"
      using st(2) by (cases "store (Channel (Metadata msg))") simp_all
    have same: "s1 (Channel (Metadata msg)) = Some cur"
      using st(1) neq cur(1) by (simp add: SaveRocket_def)
    from ProcessMessage_same_lookup [OF _ False assms, of s1] same cur(1)
    obtain saved where "s1 = SaveRocket store saved"
      "ProcessMessage s1 msg = Inr (SaveRocket s1 saved)"
      by auto
    then show ?thesis by (simp add: SaveRocket_def)
  qed
qed

theorem dedup_idempotent_witness:
  "ProcessMessage
     [(7::nat) \<mapsto> \<lparr>ID = 7, Type = ''Falcon-9'', CurrentSpeed = 1000, Mission = ''ARTEMIS'',
        Status = ''LAUNCHED'', Reason = None, LastUpdateTime = (42::int),
        LastProcessedMessageNumber = 1\<rparr>]
     \<lparr>Metadata = \<lparr>Channel = (7::nat), MessageNumber = 1, MessageTime = (42::int),
                   MessageType = MessageTypeLaunched\<rparr>,
      Message = \<lparr>By = None, LaunchSpeed = Some 1000, Mission = Some ''ARTEMIS'',
                  NewMission = None, Reason = None, Type = Some ''Falcon-9''\<rparr>\<rparr>
   = Inr [7 \<mapsto> \<lparr>ID = 7, Type = ''Falcon-9'', CurrentSpeed = 1000, Mission = ''ARTEMIS'',
        Status = ''LAUNCHED'', Reason = None, LastUpdateTime = (42::int),
        LastProcessedMessageNumber = 1\<rparr>]"
  using dedup_idempotent [of "(Map.empty :: (nat, int) InMemoryRocketStore)"
     "\<lparr>Metadata = \<lparr>Channel = (7::nat), MessageNumber = 1, MessageTime = (42::int),
                   MessageType = MessageTypeLaunched\<rparr>,
      Message = \<lparr>By = None, LaunchSpeed = Some 1000, Mission = Some ''ARTEMIS'',
                  NewMission = None, Reason = None, Type = Some ''Falcon-9''\<rparr>\<rparr>"
     "[7 \<mapsto> \<lparr>ID = 7, Type = ''Falcon-9'', CurrentSpeed = 1000, Mission = ''ARTEMIS'',
        Status = ''LAUNCHED'', Reason = None, LastUpdateTime = (42::int),
        LastProcessedMessageNumber = 1\<rparr>]"]
  by (simp add: eval_defs)

text \<open>
  C9 (first event).  For an identifier with no stored state the stale check does not
  apply: the message is not dropped whatever its number is (zero and negative numbers
  included), and the event is applied to a new state that has the identifier, the
  status UNKNOWN, and the message's number and time.  The result of the call is given
  for each kind of event: the store with that one state added, or the panic of a
  \<^verbatim>\<open>nil\<close> payload pointer, which leaves nothing stored.
\<close>

theorem first_event_accepted:
  assumes "store (Channel (Metadata msg)) = None"
  shows "\<not> dropped store msg \<and>
     ProcessMessage store msg =
       (let rid = Channel (Metadata msg);
            mt = MessageType (Metadata msg);
            m = Message msg;
            fresh = \<lparr>ID = rid, Type = [], CurrentSpeed = 0, Mission = [],
                      Status = ''UNKNOWN'', Reason = None,
                      LastUpdateTime = MessageTime (Metadata msg),
                      LastProcessedMessageNumber = MessageNumber (Metadata msg)\<rparr>
        in if mt = MessageTypeLaunched then
             (case Message.Type m of
                None \<Rightarrow> Inl NilPointerDereference
              | Some ty \<Rightarrow>
             (case LaunchSpeed m of
                None \<Rightarrow> Inl NilPointerDereference
              | Some sp \<Rightarrow>
             (case Message.Mission m of
                None \<Rightarrow> Inl NilPointerDereference
              | Some mi \<Rightarrow>
                  Inr (store(rid \<mapsto> fresh\<lparr>Type := ty, CurrentSpeed := sp, Mission := mi,
                                             Status := ''LAUNCHED''\<rparr>)))))
           else if mt = MessageTypeSpeedIncreased then
             (case By m of
                None \<Rightarrow> Inl NilPointerDereference
              | Some d \<Rightarrow> Inr (store(rid \<mapsto> fresh\<lparr>CurrentSpeed := d\<rparr>)))
           else if mt = MessageTypeSpeedDecreased then
             (case By m of
                None \<Rightarrow> Inl NilPointerDereference
              | Some d \<Rightarrow> Inr (store(rid \<mapsto> fresh\<lparr>CurrentSpeed := - d\<rparr>)))
           else if mt = MessageTypeExploded then
             Inr (store(rid \<mapsto> fresh\<lparr>Status := ''EXPLODED'',
                                        Reason := Message.Reason m\<rparr>))
           else if mt = MessageTypeMissionChanged then
             (case NewMission m of
                None \<Rightarrow> Inl NilPointerDereference
              | Some mi \<Rightarrow> Inr (store(rid \<mapsto> fresh\<lparr>Mission := mi\<rparr>)))
           else Inr (store(rid \<mapsto> fresh)))"
proof -
  have nd: "\<not> dropped store msg" using assms by (rule dropped_None)
  have "ProcessMessage store msg = (case switchMessageType
         (zeroState\<lparr>ID := Channel (Metadata msg), Status := ''UNKNOWN'',
            LastProcessedMessageNumber := MessageNumber (Metadata msg),
            LastUpdateTime := MessageTime (Metadata msg)\<rparr>) msg of
        Inl p \<Rightarrow> Inl p
      | Inr saved \<Rightarrow> Inr (SaveRocket store saved))"
    unfolding ProcessMessage_not_dropped [OF nd] using assms by simp
  then show ?thesis
    using nd
    by (simp add: switchMessageType_def zeroState_def SaveRocket_def Let_def
        StatusLaunched_def StatusExploded_def split: option.split)
qed

text \<open>
  A first message with the negative number -3 that increases the speed by 10, and a
  first message with the number 0 that reports an explosion.
\<close>

theorem first_event_accepted_witness:
  "ProcessMessage (Map.empty :: (nat, int) InMemoryRocketStore)
     \<lparr>Metadata = \<lparr>Channel = (7::nat), MessageNumber = - 3, MessageTime = (42::int),
                   MessageType = MessageTypeSpeedIncreased\<rparr>,
      Message = \<lparr>By = Some 10, LaunchSpeed = None, Mission = None,
                  NewMission = None, Reason = None, Type = None\<rparr>\<rparr>
   = Inr [7 \<mapsto> \<lparr>ID = 7, Type = [], CurrentSpeed = 10, Mission = [],
                   Status = ''UNKNOWN'', Reason = None, LastUpdateTime = 42,
                   LastProcessedMessageNumber = - 3\<rparr>]
   \<and> ProcessMessage (Map.empty :: (nat, int) InMemoryRocketStore)
     \<lparr>Metadata = \<lparr>Channel = (7::nat), MessageNumber = 0, MessageTime = (42::int),
                   MessageType = MessageTypeExploded\<rparr>,
      Message = \<lparr>By = None, LaunchSpeed = None, Mission = None,
                  NewMission = None, Reason = Some ''fuel leak'', Type = None\<rparr>\<rparr>
   = Inr [7 \<mapsto> \<lparr>ID = 7, Type = [], CurrentSpeed = 0, Mission = [],
                   Status = ''EXPLODED'', Reason = Some ''fuel leak'', LastUpdateTime = 42,
                   LastProcessedMessageNumber = 0\<rparr>]"
  using first_event_accepted [of "(Map.empty :: (nat, int) InMemoryRocketStore)"
     "\<lparr>Metadata = \<lparr>Channel = (7::nat), MessageNumber = - 3, MessageTime = (42::int),
                   MessageType = MessageTypeSpeedIncreased\<rparr>,
      Message = \<lparr>By = Some 10, LaunchSpeed = None, Mission = None,
                  NewMission = None, Reason = None, Type = None\<rparr>\<rparr>"]
    first_event_accepted [of "(Map.empty :: (nat, int) InMemoryRocketStore)"
     "\<lparr>Metadata = \<lparr>Channel = (7::nat), MessageNumber = 0, MessageTime = (42::int),
                   MessageType = MessageTypeExploded\<rparr>,
      Message = \<lparr>By = None, LaunchSpeed = None, Mission = None,
                  NewMission = None, Reason = Some ''fuel leak'', Type = None\<rparr>\<rparr>"]
  by (simp add: MessageTypeLaunched_def MessageTypeSpeedIncreased_def
      MessageTypeSpeedDecreased_def MessageTypeExploded_def)

text \<open>
  C10 (unrecognised kind).  For every message whose type is none of the five recognised
  ones and which is not dropped, \<^verbatim>\<open>ProcessMessage\<close> still saves a state: the stored
  state (or, when there is none, a new state with the channel as identifier and status
  UNKNOWN) with \<^verbatim>\<open>LastProcessedMessageNumber\<close> and \<^verbatim>\<open>LastUpdateTime\<close> set from the
  message and every other field as it was.
\<close>

theorem unknown_kind_saves:
  assumes "MessageType (Metadata msg) \<notin>
      {MessageTypeLaunched, MessageTypeExploded, MessageTypeMissionChanged,
       MessageTypeSpeedIncreased, MessageTypeSpeedDecreased}"
    and "\<not> dropped store msg"
  shows "ProcessMessage store msg =
     Inr (SaveRocket store
           ((case store (Channel (Metadata msg)) of
               None \<Rightarrow> \<lparr>ID = Channel (Metadata msg), Type = [], CurrentSpeed = 0, Mission = [],
                          Status = ''UNKNOWN'', Reason = None, LastUpdateTime = 0,
                          LastProcessedMessageNumber = 0\<rparr>
             | Some cur \<Rightarrow> cur)
            \<lparr>LastProcessedMessageNumber := MessageNumber (Metadata msg),
             LastUpdateTime := MessageTime (Metadata msg)\<rparr>))"
proof -
  have "switchMessageType newState msg = Inr newState" for newState
    using assms(1) by (simp add: switchMessageType_def)
  then show ?thesis
    unfolding ProcessMessage_not_dropped [OF assms(2)]
    by (simp add: zeroState_def split: option.splits)
qed

text \<open>A message of type "RocketLanded": for a new rocket, and for a stored one.\<close>

theorem unknown_kind_saves_witness:
  "ProcessMessage (Map.empty :: (nat, int) InMemoryRocketStore)
     \<lparr>Metadata = \<lparr>Channel = (7::nat), MessageNumber = 9, MessageTime = (77::int),
                   MessageType = ''RocketLanded''\<rparr>,
      Message = \<lparr>By = Some 10, LaunchSpeed = None, Mission = None,
                  NewMission = None, Reason = Some ''done'', Type = None\<rparr>\<rparr>
   = Inr [7 \<mapsto> \<lparr>ID = 7, Type = [], CurrentSpeed = 0, Mission = [],
        Status = ''UNKNOWN'', Reason = None, LastUpdateTime = (77::int),
        LastProcessedMessageNumber = 9\<rparr>]
 \<and> ProcessMessage
     [(7::nat) \<mapsto> \<lparr>ID = 7, Type = ''Falcon-9'', CurrentSpeed = 1300, Mission = ''ARTEMIS'',
        Status = ''LAUNCHED'', Reason = None, LastUpdateTime = (42::int),
        LastProcessedMessageNumber = 3\<rparr>]
     \<lparr>Metadata = \<lparr>Channel = (7::nat), MessageNumber = 9, MessageTime = (77::int),
                   MessageType = ''RocketLanded''\<rparr>,
      Message = \<lparr>By = Some 10, LaunchSpeed = None, Mission = None,
                  NewMission = None, Reason = Some ''done'', Type = None\<rparr>\<rparr>
   = Inr [7 \<mapsto> \<lparr>ID = 7, Type = ''Falcon-9'', CurrentSpeed = 1300, Mission = ''ARTEMIS'',
        Status = ''LAUNCHED'', Reason = None, LastUpdateTime = (77::int),
        LastProcessedMessageNumber = 9\<rparr>]"
  using unknown_kind_saves [of
     "\<lparr>Metadata = \<lparr>Channel = (7::nat), MessageNumber = 9, MessageTime = (77::int),
                   MessageType = ''RocketLanded''\<rparr>,
      Message = \<lparr>By = Some 10, LaunchSpeed = None, Mission = None,
                  NewMission = None, Reason = Some ''done'', Type = None\<rparr>\<rparr>"
     "(Map.empty :: (nat, int) InMemoryRocketStore)"]
    unknown_kind_saves [of
     "\<lparr>Metadata = \<lparr>Channel = (7::nat), MessageNumber = 9, MessageTime = (77::int),
                   MessageType = ''RocketLanded''\<rparr>,
      Message = \<lparr>By = Some 10, LaunchSpeed = None, Mission = None,
                  NewMission = None, Reason = Some ''done'', Type = None\<rparr>\<rparr>"
     "[(7::nat) \<mapsto> \<lparr>ID = 7, Type = ''Falcon-9'', CurrentSpeed = 1300, Mission = ''ARTEMIS'',
        Status = ''LAUNCHED'', Reason = None, LastUpdateTime = (42::int),
        LastProcessedMessageNumber = 3\<rparr>]"]
  by (simp add: dropped_def eval_defs)

text \<open>
  C2 (monotonic sequence).  Take a store in which every state sits under its identifier,
  an identifier \<open>rid\<close> and any list of messages for \<open>rid\<close> (in any order of numbers)
  whose payloads are present, processed one call after the other.  Then at no call does
  the stored \<^verbatim>\<open>LastProcessedMessageNumber\<close> of \<open>rid\<close> decrease, and, when at least one
  message was not dropped, the number stored after the last call is the maximum of the
  numbers of the messages that were not dropped.
\<close>

theorem monotonic_sequence:
  assumes "keyedByID store"
    and "\<forall>m\<in>set msgs. Channel (Metadata m) = rid \<and> payloadPresent m"
  shows "(\<forall>k<length msgs. \<forall>st. (storesAfter store msgs ! k) rid = Some st \<longrightarrow>
            (\<exists>st'. (storesAfter store msgs ! Suc k) rid = Some st'
               \<and> LastProcessedMessageNumber st \<le>s LastProcessedMessageNumber st'))
       \<and> (notDropped store msgs \<noteq> [] \<longrightarrow>
            (\<exists>st'. last (storesAfter store msgs) rid = Some st'
               \<and> sint (LastProcessedMessageNumber st')
                   = Max (set (map seqOf (notDropped store msgs)))))"
proof (intro conjI allI impI)
  fix k st
  assume k: "k < length msgs" and st: "(storesAfter store msgs ! k) rid = Some st"
  have "keyedByID (storesAfter store msgs ! k)"
    using assms(1) k by (simp add: keyedByID_storesAfter)
  from afterCall_mono [OF this st, of "msgs ! k"]
  show "\<exists>st'. (storesAfter store msgs ! Suc k) rid = Some st'
          \<and> LastProcessedMessageNumber st \<le>s LastProcessedMessageNumber st'"
    using k by (simp add: storesAfter_step)
next
  assume kept: "notDropped store msgs \<noteq> []"
  let ?S = "set (map seqOf (notDropped store msgs))"
  show "\<exists>st'. last (storesAfter store msgs) rid = Some st'
          \<and> sint (LastProcessedMessageNumber st') = Max ?S"
  proof (cases "store rid")
    case (Some st)
    from final_seq [OF assms(1) Some assms(2)] obtain st' where
      st': "last (storesAfter store msgs) rid = Some st'"
        "sint (LastProcessedMessageNumber st')
           = Max (insert (sint (LastProcessedMessageNumber st)) ?S)"
      by blast
    have above: "\<forall>x\<in>?S. sint (LastProcessedMessageNumber st) < x"
      using notDropped_above [OF assms(1) Some assms(2)] by auto
    have fin: "finite ?S" and ne: "?S \<noteq> {}" using kept by simp_all
    have "Max (insert (sint (LastProcessedMessageNumber st)) ?S)
            = max (sint (LastProcessedMessageNumber st)) (Max ?S)"
      using fin ne by (rule Max_insert)
    moreover have "sint (LastProcessedMessageNumber st) < Max ?S"
    proof -
      have "Max ?S \<in> ?S" using fin ne by (rule Max_in)
      then show ?thesis using above by blast
    qed
    ultimately show ?thesis using st' by auto
  next
    case None
    from kept obtain m ms where msgs: "msgs = m # ms" by (cases msgs) auto
    have ch: "Channel (Metadata m) = rid" and pp: "payloadPresent m"
      using assms(2) msgs by simp_all
    have rest: "\<forall>m\<in>set ms. Channel (Metadata m) = rid \<and> payloadPresent m"
      using assms(2) msgs by simp
    have nd: "\<not> dropped store m" using None ch by (simp add: dropped_None)
    from afterCall_applied [OF nd pp assms(1)] obtain new where
      new: "afterCall store m = store(rid \<mapsto> new)"
        "LastProcessedMessageNumber new = MessageNumber (Metadata m)"
      using ch by auto
    have inv': "keyedByID (afterCall store m)" using assms(1) by (rule keyedByID_afterCall)
    have "afterCall store m rid = Some new" using new(1) by simp
    from final_seq [OF inv' this rest] obtain st' where
      "last (storesAfter (afterCall store m) ms) rid = Some st'"
      "sint (LastProcessedMessageNumber st')
         = Max (insert (seqOf m) (set (map seqOf (notDropped (afterCall store m) ms))))"
      using new(2) by (auto simp add: seqOf_def)
    then show ?thesis
      using nd msgs by (simp add: last_storesAfter_Cons del: storesAfter.simps)
  qed
qed

text \<open>
  Numbers delivered in the order 2, 1, 5 to a new store: the message numbered 1 is
  dropped, and the number stored at the end is 5.
\<close>

theorem monotonic_sequence_witness:
  "map seqOf (notDropped NewInMemoryRocketStore
     [\<lparr>Metadata = \<lparr>Channel = (7::nat), MessageNumber = 2, MessageTime = (42::int),
                   MessageType = MessageTypeLaunched\<rparr>,
      Message = \<lparr>By = None, LaunchSpeed = Some 1000, Mission = Some ''ARTEMIS'',
                  NewMission = None, Reason = None, Type = Some ''Falcon-9''\<rparr>\<rparr>,
      \<lparr>Metadata = \<lparr>Channel = (7::nat), MessageNumber = 1, MessageTime = (41::int),
                   MessageType = MessageTypeSpeedIncreased\<rparr>,
      Message = \<lparr>By = Some 500, LaunchSpeed = None, Mission = None,
                  NewMission = None, Reason = None, Type = None\<rparr>\<rparr>,
      \<lparr>Metadata = \<lparr>Channel = (7::nat), MessageNumber = 5, MessageTime = (45::int),
                   MessageType = MessageTypeMissionChanged\<rparr>,
      Message = \<lparr>By = None, LaunchSpeed = None, Mission = None,
                  NewMission = Some ''SHUTTLE'', Reason = None, Type = None\<rparr>\<rparr>]) = [2, 5]
 \<and> (\<exists>st'. last (storesAfter NewInMemoryRocketStore
     [\<lparr>Metadata = \<lparr>Channel = (7::nat), MessageNumber = 2, MessageTime = (42::int),
                   MessageType = MessageTypeLaunched\<rparr>,
      Message = \<lparr>By = None, LaunchSpeed = Some 1000, Mission = Some ''ARTEMIS'',
                  NewMission = None, Reason = None, Type = Some ''Falcon-9''\<rparr>\<rparr>,
      \<lparr>Metadata = \<lparr>Channel = (7::nat), MessageNumber = 1, MessageTime = (41::int),
                   MessageType = MessageTypeSpeedIncreased\<rparr>,
      Message = \<lparr>By = Some 500, LaunchSpeed = None, Mission = None,
                  NewMission = None, Reason = None, Type = None\<rparr>\<rparr>,
      \<lparr>Metadata = \<lparr>Channel = (7::nat), MessageNumber = 5, MessageTime = (45::int),
                   MessageType = MessageTypeMissionChanged\<rparr>,
      Message = \<lparr>By = None, LaunchSpeed = None, Mission = None,
                  NewMission = Some ''SHUTTLE'', Reason = None, Type = None\<rparr>\<rparr>]) 7 = Some st'
       \<and> sint (LastProcessedMessageNumber st') = 5)"
proof -
  let ?msgs = "[\<lparr>Metadata = \<lparr>Channel = (7::nat), MessageNumber = 2, MessageTime = (42::int),
                   MessageType = MessageTypeLaunched\<rparr>,
      Message = \<lparr>By = None, LaunchSpeed = Some 1000, Mission = Some ''ARTEMIS'',
                  NewMission = None, Reason = None, Type = Some ''Falcon-9''\<rparr>\<rparr>,
      \<lparr>Metadata = \<lparr>Channel = (7::nat), MessageNumber = 1, MessageTime = (41::int),
                   MessageType = MessageTypeSpeedIncreased\<rparr>,
      Message = \<lparr>By = Some 500, LaunchSpeed = None, Mission = None,
                  NewMission = None, Reason = None, Type = None\<rparr>\<rparr>,
      \<lparr>Metadata = \<lparr>Channel = (7::nat), MessageNumber = 5, MessageTime = (45::int),
                   MessageType = MessageTypeMissionChanged\<rparr>,
      Message = \<lparr>By = None, LaunchSpeed = None, Mission = None,
                  NewMission = Some ''SHUTTLE'', Reason = None, Type = None\<rparr>\<rparr>]"
  have kept: "map seqOf (notDropped NewInMemoryRocketStore ?msgs) = [2, 5]"
    by (simp add: dropped_def afterCall_def seqOf_def NewInMemoryRocketStore_def eval_defs)
  have pre: "\<forall>m\<in>set ?msgs. Channel (Metadata m) = 7 \<and> payloadPresent m"
    by (simp add: payloadPresent_def eval_defs)
  have ne: "notDropped NewInMemoryRocketStore ?msgs \<noteq> []"
    using kept by auto
  from monotonic_sequence [OF keyedByID_empty pre] ne obtain st' where
    "last (storesAfter NewInMemoryRocketStore ?msgs) 7 = Some st'"
    "sint (LastProcessedMessageNumber st')
       = Max (set (map seqOf (notDropped NewInMemoryRocketStore ?msgs)))"
    by blast
  then show ?thesis
    unfolding kept by simp
qed

section \<open>Sorting by position\<close>

text \<open>
  With the comparison \<open>i < j\<close> of positions, \<^verbatim>\<open>sort.Slice\<close> finds every pair it looks at
  in order and moves nothing: insertion sort never swaps, the pivot choice counts no swap,
  and the partial insertion sort runs to the end of the range and reports it sorted.
\<close>

lemma byIndex_pred: "byIndex data j (j - Suc 0) = Some False"
proof -
  have "\<not> j < j - Suc 0" by arith
  then show ?thesis unfolding byIndex_def by simp
qed

lemma insertionSort_inner_byIndex: "insertionSort_inner byIndex data a j = Some data"
  by (subst insertionSort_inner.simps) (simp add: byIndex_pred)

lemma insertionSort_outer_byIndex: "insertionSort_outer byIndex data a b i = Some data"
proof (induction "b - i" arbitrary: i)
  case 0
  then show ?case by (subst insertionSort_outer.simps) simp
next
  case (Suc n)
  then have "insertionSort_outer byIndex data a b (i + 1) = Some data" by simp
  then show ?case
    by (subst insertionSort_outer.simps) (simp add: insertionSort_inner_byIndex)
qed

lemma order2_func_byIndex:
  "a \<le> b \<Longrightarrow> order2_func byIndex data a b swaps = Some (a, b, swaps)"
  by (simp add: order2_func_def byIndex_def)

lemma median_func_byIndex:
  "a \<le> b \<Longrightarrow> b \<le> c \<Longrightarrow> median_func byIndex data a b c swaps = Some (b, swaps)"
  by (simp add: median_func_def order2_func_byIndex)

lemma medianAdjacent_func_byIndex:
  "medianAdjacent_func byIndex data a swaps = Some (a, swaps)"
  by (simp add: medianAdjacent_func_def median_func_byIndex)

lemma choosePivot_func_byIndex:
  "choosePivot_func byIndex data a b = Some (a + (b - a) div 4 * 2, increasingHint)"
  by (simp add: choosePivot_func_def Let_def medianAdjacent_func_byIndex median_func_byIndex)

lemma partialInsertionSort_scan_byIndex:
  "i \<le> b \<Longrightarrow> partialInsertionSort_scan byIndex data i b = Some b"
proof (induction "b - i" arbitrary: i)
  case 0
  then show ?case by (subst partialInsertionSort_scan.simps) simp
next
  case (Suc n)
  from Suc.hyps(2) have "i < b" by arith
  moreover from Suc have "partialInsertionSort_scan byIndex data (i + 1) b = Some b" by simp
  ultimately show ?case
    by (subst partialInsertionSort_scan.simps) (simp add: byIndex_pred)
qed

lemma partialInsertionSort_func_byIndex:
  "a < b \<Longrightarrow> partialInsertionSort_func byIndex data a b = Some (data, True)"
  by (simp add: partialInsertionSort_func_def numeral_eq_Suc partialInsertionSort_scan_byIndex)

lemma bitsLen_pos: "0 < n \<Longrightarrow> 0 < bitsLen n"
  by (subst bitsLen.simps) simp

lemma pdqsort_loop_byIndex:
  assumes "limit \<noteq> 0"
  shows "pdqsort_loop byIndex data a b limit True True = Some data"
proof (cases "b - a \<le> 12")
  case True
  then show ?thesis
    by (subst pdqsort_loop.simps)
      (simp add: insertionSort_func_def insertionSort_outer_byIndex)
next
  case False
  then have "a < b" by simp
  with False assms show ?thesis
    by (subst pdqsort_loop.simps)
      (simp add: choosePivot_func_byIndex partialInsertionSort_func_byIndex)
qed

lemma sort_Slice_byIndex: "sort_Slice byIndex x = Some x"
proof (cases "length x = 0")
  case True
  then show ?thesis
    by (simp add: sort_Slice_def pdqsort_func_def pdqsort_loop.simps insertionSort_func_def
        insertionSort_outer_byIndex)
next
  case False
  then have "bitsLen (length x) \<noteq> 0" using bitsLen_pos [of "length x"] by simp
  then show ?thesis
    by (simp add: sort_Slice_def pdqsort_func_def pdqsort_loop_byIndex)
qed

section \<open>Correctness of sort.Slice\<close>

text \<open>
  For a closure that compares by a key, every part of the sort returns, permutes the
  slice within the range it was given, and \<^verbatim>\<open>sort.Slice\<close> leaves the keys in
  non-decreasing order.
\<close>

subsection \<open>Ranges and permutations\<close>

lemma within_outside:
  "within a b ks ks' \<Longrightarrow> k < a \<or> b \<le> k \<Longrightarrow> ks' ! k = ks ! k"
  unfolding within_def by blast

lemma within_length: "within a b ks ks' \<Longrightarrow> length ks' = length ks"
  unfolding within_def by blast

lemma within_inside:
  "within a b ks ks' \<Longrightarrow> a \<le> k \<Longrightarrow> k < b \<Longrightarrow> \<exists>k'. a \<le> k' \<and> k' < b \<and> ks' ! k = ks ! k'"
  unfolding within_def by blast

lemma within_refl: "within a b ks ks"
  by (auto simp add: within_def)

lemma within_trans: "within a b ks ks' \<Longrightarrow> within a b ks' ks'' \<Longrightarrow> within a b ks ks''"
  unfolding within_def by (metis (no_types, lifting))

lemma within_widen:
  assumes "within a' b' ks ks'" and "a \<le> a'" and "b' \<le> b"
  shows "within a b ks ks'"
  unfolding within_def
proof (intro conjI allI impI)
  show "length ks' = length ks" using assms(1) by (rule within_length)
next
  fix k assume "k < a \<or> b \<le> k"
  then have "k < a' \<or> b' \<le> k" using assms(2,3) by auto
  then show "ks' ! k = ks ! k" using assms(1) by (simp add: within_outside)
next
  fix k assume k: "a \<le> k \<and> k < b"
  show "\<exists>k'. a \<le> k' \<and> k' < b \<and> ks' ! k = ks ! k'"
  proof (cases "a' \<le> k \<and> k < b'")
    case True
    with within_inside [OF assms(1)] obtain k' where "a' \<le> k'" "k' < b'" "ks' ! k = ks ! k'"
      by blast
    then show ?thesis using assms(2,3) by (intro exI [of _ k']) auto
  next
    case False
    then have "ks' ! k = ks ! k" using within_outside [OF assms(1), of k] by auto
    then show ?thesis using k by blast
  qed
qed

lemma step_refl: "step key a b data data"
  by (simp add: step_def within_refl)

lemma step_trans: "step key a b d d' \<Longrightarrow> step key a b d' d'' \<Longrightarrow> step key a b d d''"
  unfolding step_def using within_trans by fastforce

lemma step_widen: "step key a' b' d d' \<Longrightarrow> a \<le> a' \<Longrightarrow> b' \<le> b \<Longrightarrow> step key a b d d'"
  unfolding step_def using within_widen by blast

lemma step_length: "step key a b d d' \<Longrightarrow> length d' = length d"
  unfolding step_def by (metis size_mset)

lemma keyed_Less:
  "keyed key lt Less \<Longrightarrow> i < length data \<Longrightarrow> j < length data \<Longrightarrow>
   Less data i j = Some (lt (map key data ! i) (map key data ! j))"
  by (simp add: keyed_def)

lemma Swap_step:
  assumes "i < length data" and "j < length data" and "a \<le> i" "i < b" "a \<le> j" "j < b"
  shows "\<exists>data'. Swap data i j = Some data' \<and> step key a b data data'
           \<and> map key data' = (map key data)[i := map key data ! j, j := map key data ! i]"
proof -
  let ?d = "data[i := data ! j, j := data ! i]"
  have sw: "Swap data i j = Some ?d" using assms(1,2) by (simp add: Swap_def)
  have ms: "mset ?d = mset data" using assms(1,2) by (simp add: mset_swap)
  have km: "map key ?d = (map key data)[i := map key data ! j, j := map key data ! i]"
    using assms(1,2) by (simp add: map_update)
  have "within a b (map key data) (map key ?d)"
    unfolding km within_def
  proof (intro conjI allI impI)
    show "length ((map key data)[i := map key data ! j, j := map key data ! i])
            = length (map key data)" by simp
  next
    fix k assume "k < a \<or> b \<le> k"
    then have "k \<noteq> i" "k \<noteq> j" using assms by auto
    then show "(map key data)[i := map key data ! j, j := map key data ! i] ! k
                 = map key data ! k" by simp
  next
    fix k assume k: "a \<le> k \<and> k < b"
    show "\<exists>k'. a \<le> k' \<and> k' < b \<and>
            (map key data)[i := map key data ! j, j := map key data ! i] ! k
              = map key data ! k'"
    proof (cases "k = j")
      case True
      then show ?thesis using assms by (intro exI [of _ i]) simp
    next
      case nj: False
      show ?thesis
      proof (cases "k = i")
        case True
        then show ?thesis using assms nj by (intro exI [of _ j]) simp
      next
        case False
        then show ?thesis using nj k by (intro exI [of _ k]) simp
      qed
    qed
  qed
  with sw ms km show ?thesis unfolding step_def by blast
qed

lemma within_bound:
  assumes "within a b ks ks'" and "\<forall>k. a \<le> k \<and> k < b \<longrightarrow> P (ks ! k)"
    and "a \<le> k" and "k < b"
  shows "P (ks' ! k)"
  using assms unfolding within_def by metis

subsection \<open>insertionSort\<close>

lemma compat_lt: "compat lt \<Longrightarrow> lt x y \<Longrightarrow> x \<le> y"
  by (simp add: compat_def)

lemma compat_not_lt: "compat lt \<Longrightarrow> \<not> lt x y \<Longrightarrow> y \<le> x"
  by (simp add: compat_def)

lemma sortedInI: "(\<And>k l. a \<le> k \<Longrightarrow> k \<le> l \<Longrightarrow> l < b \<Longrightarrow> ks ! k \<le> ks ! l) \<Longrightarrow> sortedIn a b ks"
  by (simp add: sortedIn_def)

lemma sortedInD: "sortedIn a b ks \<Longrightarrow> a \<le> k \<Longrightarrow> k \<le> l \<Longrightarrow> l < b \<Longrightarrow> ks ! k \<le> ks ! l"
  by (simp add: sortedIn_def)

lemma insertionSort_inner_correct:
  assumes kd: "keyed key lt Less" and cp: "compat lt"
  shows "a \<le> j \<Longrightarrow> j \<le> i \<Longrightarrow> i < length data \<Longrightarrow>
    sortedIn a j (map key data) \<Longrightarrow>
    sortedIn j (Suc i) (map key data) \<Longrightarrow>
    (\<forall>k l. a \<le> k \<and> k < j \<and> j < l \<and> l \<le> i \<longrightarrow> map key data ! k \<le> map key data ! l) \<Longrightarrow>
    \<exists>data'. insertionSort_inner Less data a j = Some data' \<and> step key a (Suc i) data data'
       \<and> sortedIn a (Suc i) (map key data')"
proof (induction j arbitrary: data)
  case 0
  then show ?case
    by (subst insertionSort_inner.simps) (simp add: step_refl)
next
  case (Suc j)
  let ?K = "map key data"
  let ?j = "Suc j"
  show ?case
  proof (cases "a < ?j")
    case False
    with Suc.prems(1) have "a = ?j" by simp
    with Suc.prems show ?thesis
      by (subst insertionSort_inner.simps) (simp add: step_refl)
  next
    case True
    have jl: "?j < length data" "j < length data" using Suc.prems(2,3) by simp_all
    have less: "Less data ?j (?j - 1) = Some (lt (?K ! ?j) (?K ! j))"
      using keyed_Less [OF kd jl] by simp
    show ?thesis
    proof (cases "lt (?K ! ?j) (?K ! j)")
      case nlt: False
      then have le: "?K ! j \<le> ?K ! ?j" using cp by (rule compat_not_lt [rotated])
      have "sortedIn a (Suc i) ?K"
      proof (rule sortedInI)
        fix k l assume kl: "a \<le> k" "k \<le> l" "l < Suc i"
        show "?K ! k \<le> ?K ! l"
        proof (cases "l < ?j")
          case True
          then show ?thesis using Suc.prems(4) kl by (simp add: sortedIn_def)
        next
          case lge: False
          show ?thesis
          proof (cases "?j \<le> k")
            case True
            then show ?thesis using Suc.prems(5) kl by (simp add: sortedIn_def)
          next
            case False
            then have kj: "k \<le> j" by simp
            have "?K ! k \<le> ?K ! j"
              using Suc.prems(4) kl(1) kj by (simp add: sortedIn_def)
            also have "?K ! j \<le> ?K ! ?j" by (rule le)
            also have "?K ! ?j \<le> ?K ! l"
              using Suc.prems(5) lge kl(3) by (simp add: sortedIn_def)
            finally show ?thesis .
          qed
        qed
      qed
      with nlt less True show ?thesis
        by (subst insertionSort_inner.simps) (simp add: step_refl)
    next
      case islt: True
      then have le: "?K ! ?j \<le> ?K ! j" using cp by (rule compat_lt [rotated])
      have range: "a \<le> ?j" "?j < Suc i" "a \<le> j" "j < Suc i"
        using True Suc.prems(2) by simp_all
      from Swap_step [OF jl range, of key] obtain d1 where
        sw: "Swap data ?j j = Some d1" and st: "step key a (Suc i) data d1"
        and k1: "map key d1 = ?K[?j := ?K ! j, j := ?K ! ?j]"
        by blast
      let ?K1 = "map key d1"
      have len1: "length d1 = length data" using st by (rule step_length)
      have n1: "?K1 ! k = (if k = j then ?K ! ?j else if k = ?j then ?K ! j else ?K ! k)"
        if "k < length data" for k
        using that jl unfolding k1 by (simp add: nth_list_update)
      have p1: "a \<le> j" using True by simp
      have p2: "j \<le> i" using Suc.prems(2) by simp
      have p3: "i < length d1" using Suc.prems(3) len1 by simp
      have p4: "sortedIn a j ?K1"
      proof (rule sortedInI)
        fix k l assume kl: "a \<le> k" "k \<le> l" "l < j"
        then have "?K1 ! k = ?K ! k" "?K1 ! l = ?K ! l" using n1 jl by simp_all
        moreover have "?K ! k \<le> ?K ! l" using Suc.prems(4) kl by (simp add: sortedIn_def)
        ultimately show "?K1 ! k \<le> ?K1 ! l" by simp
      qed
      have p5: "sortedIn j (Suc i) ?K1"
      proof (rule sortedInI)
        fix k l assume kl: "j \<le> k" "k \<le> l" "l < Suc i"
        have li: "l < length data" "k < length data" using kl Suc.prems(3) by simp_all
        show "?K1 ! k \<le> ?K1 ! l"
        proof (cases "k = j")
          case kj: True
          show ?thesis
          proof (cases "l = j")
            case True
            with kj show ?thesis by simp
          next
            case False
            show ?thesis
            proof (cases "l = ?j")
              case True
              with kj n1 li le show ?thesis by simp
            next
              case False
              with \<open>l \<noteq> j\<close> kl kj have "?j < l" by simp
              then have "?K ! ?j \<le> ?K ! l"
                using Suc.prems(5) kl(3) by (simp add: sortedIn_def)
              with kj n1 li \<open>l \<noteq> j\<close> False show ?thesis by simp
            qed
          qed
        next
          case knj: False
          then have kgt: "j < k" using kl by simp
          show ?thesis
          proof (cases "k = ?j")
            case True
            show ?thesis
            proof (cases "l = ?j")
              case True
              with \<open>k = ?j\<close> show ?thesis by simp
            next
              case False
              with True kl have "?j < l" by simp
              then have "?K ! j \<le> ?K ! l"
                using Suc.prems(6) p1 kl(3) True by (cases "a \<le> j") auto
              with True n1 li False \<open>?j < l\<close> show ?thesis by simp
            qed
          next
            case False
            with kgt have "?j < k" by simp
            then have "?K ! k \<le> ?K ! l"
              using Suc.prems(5) kl by (simp add: sortedIn_def)
            with n1 li \<open>?j < k\<close> kl show ?thesis by simp
          qed
        qed
      qed
      have p6: "\<forall>k l. a \<le> k \<and> k < j \<and> j < l \<and> l \<le> i \<longrightarrow> ?K1 ! k \<le> ?K1 ! l"
      proof (intro allI impI)
        fix k l assume kl: "a \<le> k \<and> k < j \<and> j < l \<and> l \<le> i"
        then have li: "l < length data" "k < length data" using Suc.prems(3) by simp_all
        show "?K1 ! k \<le> ?K1 ! l"
        proof (cases "l = ?j")
          case True
          have "?K ! k \<le> ?K ! j" using Suc.prems(4) kl by (simp add: sortedIn_def)
          with True n1 li kl show ?thesis by simp
        next
          case False
          with kl have "?j < l" by simp
          then have "?K ! k \<le> ?K ! l" using Suc.prems(6) kl by simp
          with n1 li kl \<open>?j < l\<close> show ?thesis by simp
        qed
      qed
      from Suc.IH [OF p1 p2 p3 p4 p5 p6] obtain d' where
        r: "insertionSort_inner Less d1 a j = Some d'" "step key a (Suc i) d1 d'"
          "sortedIn a (Suc i) (map key d')"
        by blast
      have "insertionSort_inner Less data a ?j = Some d'"
        using True less islt sw r(1) by (subst insertionSort_inner.simps) simp
      with r step_trans [OF st r(2)] show ?thesis by blast
    qed
  qed
qed

lemma sortedIn_single: "b \<le> Suc a \<Longrightarrow> sortedIn a b ks"
proof (rule sortedInI)
  fix k l assume "b \<le> Suc a" "a \<le> k" "k \<le> l" "l < b"
  then have "k = l" by arith
  then show "ks ! k \<le> ks ! l" by simp
qed

lemma insertionSort_outer_correct:
  assumes kd: "keyed key lt Less" and cp: "compat lt"
  shows "a < i \<Longrightarrow> i \<le> b \<Longrightarrow> b \<le> length data \<Longrightarrow> sortedIn a i (map key data) \<Longrightarrow>
    \<exists>data'. insertionSort_outer Less data a b i = Some data' \<and> step key a b data data'
       \<and> sortedIn a b (map key data')"
proof (induction "b - i" arbitrary: i data)
  case 0
  then have "i = b" by simp
  with 0 show ?case
    by (subst insertionSort_outer.simps) (simp add: step_refl)
next
  case (Suc n)
  then have ib: "i < b" by simp
  have "\<exists>d1. insertionSort_inner Less data a i = Some d1 \<and> step key a (Suc i) data d1
       \<and> sortedIn a (Suc i) (map key d1)"
  proof (rule insertionSort_inner_correct [OF kd cp])
    show "a \<le> i" using Suc.prems(1) by simp
    show "i \<le> i" by simp
    show "i < length data" using ib Suc.prems(3) by simp
    show "sortedIn a i (map key data)" by (rule Suc.prems(4))
    show "sortedIn i (Suc i) (map key data)" by (rule sortedIn_single) simp
    show "\<forall>k l. a \<le> k \<and> k < i \<and> i < l \<and> l \<le> i \<longrightarrow> map key data ! k \<le> map key data ! l"
      by auto
  qed
  then obtain d1 where d1: "insertionSort_inner Less data a i = Some d1"
    "step key a (Suc i) data d1" "sortedIn a (Suc i) (map key d1)" by blast
  have len1: "length d1 = length data" using d1(2) by (rule step_length)
  have "\<exists>data'. insertionSort_outer Less d1 a b (Suc i) = Some data' \<and> step key a b d1 data'
       \<and> sortedIn a b (map key data')"
  proof (rule Suc.hyps(1))
    show "n = b - Suc i" using Suc.hyps(2) by simp
    show "a < Suc i" using Suc.prems(1) by simp
    show "Suc i \<le> b" using ib by simp
    show "b \<le> length d1" using Suc.prems(3) len1 by simp
    show "sortedIn a (Suc i) (map key d1)" by (rule d1(3))
  qed
  then obtain d' where d': "insertionSort_outer Less d1 a b (Suc i) = Some d'"
    "step key a b d1 d'" "sortedIn a b (map key d')" by blast
  have "step key a b data d1" using d1(2) ib by (auto intro: step_widen)
  then have "step key a b data d'" using d'(2) by (rule step_trans)
  moreover have "insertionSort_outer Less data a b i = Some d'"
    using ib d1(1) d'(1) by (subst insertionSort_outer.simps) simp
  ultimately show ?case using d'(3) by blast
qed

lemma insertionSort_func_correct:
  assumes kd: "keyed key lt Less" and cp: "compat lt"
    and "a \<le> b" and "b \<le> length data"
  shows "\<exists>data'. insertionSort_func Less data a b = Some data' \<and> step key a b data data'
       \<and> sortedIn a b (map key data')"
proof (cases "a = b")
  case True
  then show ?thesis
    unfolding insertionSort_func_def
    by (subst insertionSort_outer.simps) (simp add: step_refl sortedIn_single)
next
  case False
  with assms(3) have "Suc a \<le> b" by simp
  from insertionSort_outer_correct [OF kd cp _ this assms(4)]
  show ?thesis
    unfolding insertionSort_func_def by (simp add: sortedIn_single)
qed

subsection \<open>partition\<close>

lemma partition_skipLess_correct:
  assumes kd: "keyed key lt Less" and "a < length data" and "jj \<le> length data"
  shows "\<exists>i'. partition_skipLess Less data a i jj = Some i' \<and> i \<le> i' \<and> i' \<le> max i jj
    \<and> (\<forall>k. i \<le> k \<and> k < i' \<longrightarrow> lt (map key data ! k) (map key data ! a))
    \<and> (i' < jj \<longrightarrow> \<not> lt (map key data ! i') (map key data ! a))"
proof (induction "jj - i" arbitrary: i)
  case 0
  then show ?case by (subst partition_skipLess.simps) auto
next
  case (Suc n)
  then have ij: "i < jj" by simp
  then have il: "i < length data" using assms(3) by simp
  have less: "Less data i a = Some (lt (map key data ! i) (map key data ! a))"
    by (rule keyed_Less [OF kd il assms(2)])
  show ?case
  proof (cases "lt (map key data ! i) (map key data ! a)")
    case False
    with ij less show ?thesis by (subst partition_skipLess.simps) auto
  next
    case True
    from Suc.hyps(2) have "n = jj - Suc i" by simp
    from Suc.hyps(1) [OF this] obtain i' where
      r: "partition_skipLess Less data a (Suc i) jj = Some i'" "Suc i \<le> i'" "i' \<le> max (Suc i) jj"
        "\<forall>k. Suc i \<le> k \<and> k < i' \<longrightarrow> lt (map key data ! k) (map key data ! a)"
        "i' < jj \<longrightarrow> \<not> lt (map key data ! i') (map key data ! a)"
      by blast
    have "\<forall>k. i \<le> k \<and> k < i' \<longrightarrow> lt (map key data ! k) (map key data ! a)"
    proof (intro allI impI)
      fix k assume "i \<le> k \<and> k < i'"
      then show "lt (map key data ! k) (map key data ! a)"
        using r(4) True by (cases "k = i") auto
    qed
    moreover have "partition_skipLess Less data a i jj = Some i'"
      using ij less True r(1) by (subst partition_skipLess.simps) simp
    ultimately show ?thesis using r(2,3,5) ij by auto
  qed
qed

lemma partition_skipNotLess_correct:
  assumes kd: "keyed key lt Less" and "a < length data"
  shows "jj \<le> length data \<Longrightarrow>
    \<exists>jj'. partition_skipNotLess Less data a i jj = Some jj' \<and> jj' \<le> jj \<and> min i jj \<le> jj'
    \<and> (\<forall>k. jj' \<le> k \<and> k < jj \<longrightarrow> \<not> lt (map key data ! k) (map key data ! a))
    \<and> (i < jj' \<longrightarrow> lt (map key data ! (jj' - 1)) (map key data ! a))"
proof (induction jj)
  case 0
  then show ?case by (subst partition_skipNotLess.simps) auto
next
  case (Suc j)
  show ?case
  proof (cases "i < Suc j")
    case False
    then show ?thesis by (subst partition_skipNotLess.simps) auto
  next
    case ij: True
    have jl: "j < length data" using Suc.prems by simp
    have less: "Less data (Suc j - 1) a = Some (lt (map key data ! j) (map key data ! a))"
      using keyed_Less [OF kd jl assms(2)] by simp
    show ?thesis
    proof (cases "lt (map key data ! j) (map key data ! a)")
      case True
      with ij less show ?thesis by (subst partition_skipNotLess.simps) auto
    next
      case False
      from Suc.IH jl obtain jj' where
        r: "partition_skipNotLess Less data a i j = Some jj'" "jj' \<le> j" "min i j \<le> jj'"
          "\<forall>k. jj' \<le> k \<and> k < j \<longrightarrow> \<not> lt (map key data ! k) (map key data ! a)"
          "i < jj' \<longrightarrow> lt (map key data ! (jj' - 1)) (map key data ! a)"
        by auto
      have "\<forall>k. jj' \<le> k \<and> k < Suc j \<longrightarrow> \<not> lt (map key data ! k) (map key data ! a)"
      proof (intro allI impI)
        fix k assume "jj' \<le> k \<and> k < Suc j"
        then show "\<not> lt (map key data ! k) (map key data ! a)"
          using r(4) False by (cases "k = j") auto
      qed
      moreover have "partition_skipNotLess Less data a i (Suc j) = Some jj'"
        using ij less False r(1) by (subst partition_skipNotLess.simps) simp
      ultimately show ?thesis using r(2,3,5) ij by auto
    qed
  qed
qed

lemma step_nth_outside:
  "step key a b d d' \<Longrightarrow> k < a \<or> b \<le> k \<Longrightarrow> map key d' ! k = map key d ! k"
  unfolding step_def using within_outside by blast

lemma partition_loop_correct:
  assumes kd: "keyed key lt Less" and cp: "compat lt"
  shows "a < i \<Longrightarrow> i \<le> jj + 1 \<Longrightarrow> jj \<le> b \<Longrightarrow> b \<le> length data \<Longrightarrow> a < b \<Longrightarrow>
    (\<forall>k. a < k \<and> k < i \<longrightarrow> map key data ! k \<le> map key data ! a) \<Longrightarrow>
    (\<forall>k. jj \<le> k \<and> k < b \<longrightarrow> map key data ! a \<le> map key data ! k) \<Longrightarrow>
    \<exists>d' i' jj'. partition_loop Less data a i jj = Some (d', i', jj')
      \<and> step key (Suc a) b data d' \<and> jj' \<le> i' \<and> i - 1 \<le> jj' \<and> jj' \<le> jj
      \<and> (\<forall>k. a < k \<and> k < i' \<longrightarrow> map key d' ! k \<le> map key d' ! a)
      \<and> (\<forall>k. jj' \<le> k \<and> k < b \<longrightarrow> map key d' ! a \<le> map key d' ! k)"
proof (induction "jj - i" arbitrary: i jj data rule: less_induct)
  case less
  note nth_map [simp del]
  let ?K = "map key data"
  let ?p = "?K ! a"
  have al: "a < length data" using less.prems(4,5) by simp
  have jjl: "jj \<le> length data" using less.prems(3,4) by simp
  from partition_skipLess_correct [OF kd al jjl, of i] obtain i1 where
    s1: "partition_skipLess Less data a i jj = Some i1" "i \<le> i1" "i1 \<le> max i jj"
      "\<forall>k. i \<le> k \<and> k < i1 \<longrightarrow> lt (?K ! k) ?p"
      "i1 < jj \<longrightarrow> \<not> lt (?K ! i1) ?p"
    by blast
  from partition_skipNotLess_correct [OF kd al jjl, of i1] obtain jj1 where
    s2: "partition_skipNotLess Less data a i1 jj = Some jj1" "jj1 \<le> jj" "min i1 jj \<le> jj1"
      "\<forall>k. jj1 \<le> k \<and> k < jj \<longrightarrow> \<not> lt (?K ! k) ?p"
      "i1 < jj1 \<longrightarrow> lt (?K ! (jj1 - 1)) ?p"
    by blast
  have L: "?K ! k \<le> ?p" if "a < k" "k < i1" for k
  proof (cases "k < i")
    case True
    with that less.prems(6) show ?thesis by simp
  next
    case False
    with that s1(4) have "lt (?K ! k) ?p" by simp
    then show ?thesis using cp by (rule compat_lt [rotated])
  qed
  have R: "?p \<le> ?K ! k" if "jj1 \<le> k" "k < b" for k
  proof (cases "jj \<le> k")
    case True
    with that less.prems(7) show ?thesis by simp
  next
    case False
    with that s2(4) have "\<not> lt (?K ! k) ?p" by simp
    then show ?thesis using cp by (rule compat_not_lt [rotated])
  qed
  show ?case
  proof (cases "jj1 \<le> i1")
    case True
    have "partition_loop Less data a i jj = Some (data, i1, jj1)"
      using s1(1) s2(1) True by (subst partition_loop.simps) simp
    moreover have "i - 1 \<le> jj1" using s1(2,3) s2(3) less.prems(2) by (auto simp add: min_def max_def split: if_splits)
    ultimately show ?thesis
      using True s2(2) L R by (auto simp add: step_refl)
  next
    case False
    then have lt12: "i1 < jj1" by simp
    then have i1jj: "i1 < jj" using s2(2) by simp
    have ge: "?p \<le> ?K ! i1"
      using s1(5) i1jj cp by (auto intro: compat_not_lt)
    have le: "?K ! (jj1 - 1) \<le> ?p"
      using s2(5) lt12 cp by (auto intro: compat_lt)
    have r1: "i1 < length data" "jj1 - 1 < length data"
      using i1jj jjl s2(2) lt12 by simp_all
    have r2: "Suc a \<le> i1" "i1 < b" "Suc a \<le> jj1 - 1" "jj1 - 1 < b"
      using less.prems(1,3) s1(2) i1jj s2(2) lt12 by simp_all
    from Swap_step [OF r1 r2, of key] obtain d1 where
      sw: "Swap data i1 (jj1 - 1) = Some d1" and st: "step key (Suc a) b data d1"
      and k1: "map key d1 = ?K[i1 := ?K ! (jj1 - 1), jj1 - 1 := ?K ! i1]"
      by blast
    let ?K1 = "map key d1"
    have len1: "length d1 = length data" using st by (rule step_length)
    have pa: "?K1 ! a = ?p" using st by (simp add: step_nth_outside)
    have n1: "?K1 ! k = (if k = jj1 - 1 then ?K ! i1 else if k = i1 then ?K ! (jj1 - 1) else ?K ! k)"
      if "k < length data" for k
      using that r1 unfolding k1 by (simp add: nth_list_update)
    have m: "jj1 - 1 - (i1 + 1) < jj - i" using s1(2) s2(2) lt12 by simp
    have q1: "a < i1 + 1" using r2 by simp
    have q2: "i1 + 1 \<le> jj1 - 1 + 1" using lt12 by simp
    have q3: "jj1 - 1 \<le> b" using r2 by simp
    have q4: "b \<le> length d1" using less.prems(4) len1 by simp
    have q6: "\<forall>k. a < k \<and> k < i1 + 1 \<longrightarrow> ?K1 ! k \<le> ?K1 ! a"
    proof (intro allI impI)
      fix k assume k: "a < k \<and> k < i1 + 1"
      then have kl: "k < length data" using r1 by simp
      show "?K1 ! k \<le> ?K1 ! a"
      proof (cases "k = i1")
        case True
        then show ?thesis using n1 [OF kl] le pa by simp
      next
        case False
        with k have "k < i1" by simp
        moreover from this lt12 have "k \<noteq> jj1 - 1" by arith
        ultimately show ?thesis using k L [of k] n1 [OF kl] pa False by simp
      qed
    qed
    have q7: "\<forall>k. jj1 - 1 \<le> k \<and> k < b \<longrightarrow> ?K1 ! a \<le> ?K1 ! k"
    proof (intro allI impI)
      fix k assume k: "jj1 - 1 \<le> k \<and> k < b"
      then have kl: "k < length data" using less.prems(4) by simp
      show "?K1 ! a \<le> ?K1 ! k"
      proof (cases "k = jj1 - 1")
        case True
        then show ?thesis using n1 [OF kl] ge pa by simp
      next
        case False
        with k have "jj1 \<le> k" by arith
        moreover from this lt12 have "k \<noteq> i1" by arith
        ultimately show ?thesis using k R [of k] n1 [OF kl] False pa by simp
      qed
    qed
    from less.hyps [OF m q1 q2 q3 q4 less.prems(5) q6 q7] obtain d' i' jj' where
      r: "partition_loop Less d1 a (i1 + 1) (jj1 - 1) = Some (d', i', jj')"
        "step key (Suc a) b d1 d'" "jj' \<le> i'" "i1 + 1 - 1 \<le> jj'" "jj' \<le> jj1 - 1"
        "\<forall>k. a < k \<and> k < i' \<longrightarrow> map key d' ! k \<le> map key d' ! a"
        "\<forall>k. jj' \<le> k \<and> k < b \<longrightarrow> map key d' ! a \<le> map key d' ! k"
      by blast
    have "partition_loop Less data a i jj = Some (d', i', jj')"
      using s1(1) s2(1) False sw r(1) by (subst partition_loop.simps) simp
    moreover have "step key (Suc a) b data d'" using st r(2) by (rule step_trans)
    moreover have "i - 1 \<le> jj'" using r(4) s1(2) by simp
    moreover have "jj' \<le> jj" using r(5) s2(2) by simp
    ultimately show ?thesis using r(3,6,7) by blast
  qed
qed

lemma partition_finish:
  assumes "a \<le> j" and "j < b" and "b \<le> length d"
    and L: "\<forall>k. a < k \<and> k \<le> j \<longrightarrow> map key d ! k \<le> map key d ! a"
    and R: "\<forall>k. j < k \<and> k < b \<longrightarrow> map key d ! a \<le> map key d ! k"
  shows "\<exists>d'. Swap d j a = Some d' \<and> step key a b d d'
    \<and> (\<forall>k. a \<le> k \<and> k < j \<longrightarrow> map key d' ! k \<le> map key d' ! j)
    \<and> (\<forall>k. j < k \<and> k < b \<longrightarrow> map key d' ! j \<le> map key d' ! k)"
proof -
  note nth_map [simp del]
  let ?K = "map key d"
  have r1: "j < length d" "a < length d" using assms(1,2,3) by simp_all
  have r2: "a \<le> j" "j < b" "a \<le> a" "a < b" using assms(1,2) by simp_all
  from Swap_step [OF r1 r2, of key] obtain d' where
    sw: "Swap d j a = Some d'" and st: "step key a b d d'"
    and k1: "map key d' = ?K[j := ?K ! a, a := ?K ! j]"
    by blast
  have n1: "map key d' ! k = (if k = a then ?K ! j else if k = j then ?K ! a else ?K ! k)"
    if "k < length d" for k
    using that r1 unfolding k1 by (simp add: nth_list_update)
  have left: "\<forall>k. a \<le> k \<and> k < j \<longrightarrow> map key d' ! k \<le> map key d' ! j"
  proof (intro allI impI)
    fix k assume k: "a \<le> k \<and> k < j"
    then have kl: "k < length d" and aj: "a < j" using r1 by simp_all
    have j': "map key d' ! j = ?K ! a" using n1 [OF r1(1)] aj by simp
    show "map key d' ! k \<le> map key d' ! j"
    proof (cases "k = a")
      case True
      then show ?thesis using n1 [OF kl] j' L aj by simp
    next
      case False
      with k have "a < k" "k \<le> j" "k \<noteq> j" by simp_all
      then show ?thesis using n1 [OF kl] j' L False by simp
    qed
  qed
  have right: "\<forall>k. j < k \<and> k < b \<longrightarrow> map key d' ! j \<le> map key d' ! k"
  proof (intro allI impI)
    fix k assume k: "j < k \<and> k < b"
    then have kl: "k < length d" and ne: "k \<noteq> a" "k \<noteq> j" using assms(1,3) by simp_all
    have "map key d' ! j = ?K ! a" using n1 [OF r1(1)] by simp
    then show "map key d' ! j \<le> map key d' ! k"
      using n1 [OF kl] ne R k by simp
  qed
  from sw st left right show ?thesis by blast
qed

lemma partition_func_correct:
  assumes kd: "keyed key lt Less" and cp: "compat lt"
    and ab: "a < b" and bl: "b \<le> length data" and pv: "a \<le> pivot" "pivot < b"
  shows "\<exists>d' mid ap. partition_func Less data a b pivot = Some (d', mid, ap)
    \<and> step key a b data d' \<and> a \<le> mid \<and> mid < b
    \<and> (\<forall>k. a \<le> k \<and> k < mid \<longrightarrow> map key d' ! k \<le> map key d' ! mid)
    \<and> (\<forall>k. mid < k \<and> k < b \<longrightarrow> map key d' ! mid \<le> map key d' ! k)"
proof -
  note nth_map [simp del]
  have r1: "a < length data" "pivot < length data" using ab bl pv by simp_all
  have r2: "a \<le> a" "a < b" "a \<le> pivot" "pivot < b" using ab pv by simp_all
  from Swap_step [OF r1 r2, of key] obtain d0 where
    sw0: "Swap data a pivot = Some d0" and st0: "step key a b data d0"
    by blast
  let ?K = "map key d0"
  let ?p = "?K ! a"
  have len0: "length d0 = length data" using st0 by (rule step_length)
  have al: "a < length d0" and bl0: "b \<le> length d0" using r1 bl len0 by simp_all
  from partition_skipLess_correct [OF kd al bl0, of "a + 1"] obtain i1 where
    s1: "partition_skipLess Less d0 a (a + 1) b = Some i1" "a + 1 \<le> i1" "i1 \<le> max (a + 1) b"
      "\<forall>k. a + 1 \<le> k \<and> k < i1 \<longrightarrow> lt (?K ! k) ?p"
      "i1 < b \<longrightarrow> \<not> lt (?K ! i1) ?p"
    by blast
  from partition_skipNotLess_correct [OF kd al bl0, of i1] obtain jj1 where
    s2: "partition_skipNotLess Less d0 a i1 b = Some jj1" "jj1 \<le> b" "min i1 b \<le> jj1"
      "\<forall>k. jj1 \<le> k \<and> k < b \<longrightarrow> \<not> lt (?K ! k) ?p"
      "i1 < jj1 \<longrightarrow> lt (?K ! (jj1 - 1)) ?p"
    by blast
  have i1b: "i1 \<le> b" using s1(3) ab by simp
  then have i1jj1: "i1 \<le> jj1" using s2(3) by simp
  have L: "?K ! k \<le> ?p" if "a < k" "k < i1" for k
    using s1(4) that cp by (auto intro: compat_lt)
  have R: "?p \<le> ?K ! k" if "jj1 \<le> k" "k < b" for k
    using s2(4) that cp by (auto intro: compat_not_lt)
  show ?thesis
  proof (cases "jj1 \<le> i1")
    case True
    with i1jj1 have eq: "jj1 = i1" by simp
    have j0: "jj1 \<noteq> 0" using eq s1(2) by simp
    have f1: "a \<le> jj1 - 1" "jj1 - 1 < b" using eq s1(2) i1b by simp_all
    have f2: "\<forall>k. a < k \<and> k \<le> jj1 - 1 \<longrightarrow> ?K ! k \<le> ?p"
    proof (intro allI impI)
      fix k assume "a < k \<and> k \<le> jj1 - 1"
      then have "a < k" "k < i1" using eq by arith+
      then show "?K ! k \<le> ?p" by (rule L)
    qed
    have f3: "\<forall>k. jj1 - 1 < k \<and> k < b \<longrightarrow> ?p \<le> ?K ! k"
    proof (intro allI impI)
      fix k assume "jj1 - 1 < k \<and> k < b"
      then have "jj1 \<le> k" "k < b" by arith+
      then show "?p \<le> ?K ! k" by (rule R)
    qed
    from partition_finish [OF f1 bl0 f2 f3] obtain d' where
      fin: "Swap d0 (jj1 - 1) a = Some d'" "step key a b d0 d'"
        "\<forall>k. a \<le> k \<and> k < jj1 - 1 \<longrightarrow> map key d' ! k \<le> map key d' ! (jj1 - 1)"
        "\<forall>k. jj1 - 1 < k \<and> k < b \<longrightarrow> map key d' ! (jj1 - 1) \<le> map key d' ! k"
      by blast
    have "partition_func Less data a b pivot = Some (d', jj1 - 1, True)"
      using sw0 s1(1) s2(1) True j0 fin(1) by (simp add: partition_func_def)
    moreover have "step key a b data d'" using st0 fin(2) by (rule step_trans)
    ultimately show ?thesis using f1 fin(3,4) by blast
  next
    case False
    then have lt12: "i1 < jj1" by simp
    have ge: "?p \<le> ?K ! i1" using s1(5) lt12 s2(2) cp by (auto intro: compat_not_lt)
    have le: "?K ! (jj1 - 1) \<le> ?p" using s2(5) lt12 cp by (auto intro: compat_lt)
    have q1: "i1 < length d0" "jj1 - 1 < length d0" using lt12 s2(2) bl0 by simp_all
    have q2: "Suc a \<le> i1" "i1 < b" "Suc a \<le> jj1 - 1" "jj1 - 1 < b"
      using s1(2) lt12 s2(2) by simp_all
    from Swap_step [OF q1 q2, of key] obtain d1 where
      sw1: "Swap d0 i1 (jj1 - 1) = Some d1" and st1: "step key (Suc a) b d0 d1"
      and k1: "map key d1 = ?K[i1 := ?K ! (jj1 - 1), jj1 - 1 := ?K ! i1]"
      by blast
    let ?K1 = "map key d1"
    have len1: "length d1 = length d0" using st1 by (rule step_length)
    have pa: "?K1 ! a = ?p" using st1 by (simp add: step_nth_outside)
    have n1: "?K1 ! k = (if k = jj1 - 1 then ?K ! i1 else if k = i1 then ?K ! (jj1 - 1) else ?K ! k)"
      if "k < length d0" for k
      using that q1 unfolding k1 by (simp add: nth_list_update)
    have p1: "a < i1 + 1" using q2 by simp
    have p2: "i1 + 1 \<le> jj1 - 1 + 1" using lt12 by simp
    have p3: "jj1 - 1 \<le> b" using q2 by simp
    have p4: "b \<le> length d1" using bl0 len1 by simp
    have p6: "\<forall>k. a < k \<and> k < i1 + 1 \<longrightarrow> ?K1 ! k \<le> ?K1 ! a"
    proof (intro allI impI)
      fix k assume k: "a < k \<and> k < i1 + 1"
      then have kl: "k < length d0" using q1 by simp
      show "?K1 ! k \<le> ?K1 ! a"
      proof (cases "k = i1")
        case True
        then show ?thesis using n1 [OF kl] le pa by simp
      next
        case False
        with k have "k < i1" by simp
        moreover from this lt12 have "k \<noteq> jj1 - 1" by arith
        ultimately show ?thesis using k L [of k] n1 [OF kl] pa False by simp
      qed
    qed
    have p7: "\<forall>k. jj1 - 1 \<le> k \<and> k < b \<longrightarrow> ?K1 ! a \<le> ?K1 ! k"
    proof (intro allI impI)
      fix k assume k: "jj1 - 1 \<le> k \<and> k < b"
      then have kl: "k < length d0" using bl0 by simp
      show "?K1 ! a \<le> ?K1 ! k"
      proof (cases "k = jj1 - 1")
        case True
        then show ?thesis using n1 [OF kl] ge pa by simp
      next
        case False
        with k have "jj1 \<le> k" by arith
        moreover from this lt12 have "k \<noteq> i1" by arith
        ultimately show ?thesis using k R [of k] n1 [OF kl] False pa by simp
      qed
    qed
    from partition_loop_correct [OF kd cp p1 p2 p3 p4 ab p6 p7] obtain d2 i2 jj2 where
      lp: "partition_loop Less d1 a (i1 + 1) (jj1 - 1) = Some (d2, i2, jj2)"
        "step key (Suc a) b d1 d2" "jj2 \<le> i2" "i1 + 1 - 1 \<le> jj2" "jj2 \<le> jj1 - 1"
        "\<forall>k. a < k \<and> k < i2 \<longrightarrow> map key d2 ! k \<le> map key d2 ! a"
        "\<forall>k. jj2 \<le> k \<and> k < b \<longrightarrow> map key d2 ! a \<le> map key d2 ! k"
      by blast
    have len2: "length d2 = length d1" using lp(2) by (rule step_length)
    have j0: "jj2 \<noteq> 0" using lp(4) q2 by simp
    have f1: "a \<le> jj2 - 1" "jj2 - 1 < b" using lp(4,5) q2 by simp_all
    have f0: "b \<le> length d2" using p4 len2 by simp
    have f2: "\<forall>k. a < k \<and> k \<le> jj2 - 1 \<longrightarrow> map key d2 ! k \<le> map key d2 ! a"
    proof (intro allI impI)
      fix k assume "a < k \<and> k \<le> jj2 - 1"
      then have "a < k \<and> k < i2" using lp(3) j0 by arith
      then show "map key d2 ! k \<le> map key d2 ! a" using lp(6) by simp
    qed
    have f3: "\<forall>k. jj2 - 1 < k \<and> k < b \<longrightarrow> map key d2 ! a \<le> map key d2 ! k"
    proof (intro allI impI)
      fix k assume "jj2 - 1 < k \<and> k < b"
      then have "jj2 \<le> k \<and> k < b" by arith
      then show "map key d2 ! a \<le> map key d2 ! k" using lp(7) by simp
    qed
    from partition_finish [OF f1 f0 f2 f3] obtain d' where
      fin: "Swap d2 (jj2 - 1) a = Some d'" "step key a b d2 d'"
        "\<forall>k. a \<le> k \<and> k < jj2 - 1 \<longrightarrow> map key d' ! k \<le> map key d' ! (jj2 - 1)"
        "\<forall>k. jj2 - 1 < k \<and> k < b \<longrightarrow> map key d' ! (jj2 - 1) \<le> map key d' ! k"
      by blast
    have "partition_func Less data a b pivot = Some (d', jj2 - 1, False)"
      using sw0 s1(1) s2(1) False sw1 lp(1) j0 fin(1) by (simp add: partition_func_def)
    moreover have "step key a b data d'"
    proof -
      have "step key a b d0 d1" using st1 by (rule step_widen) simp_all
      moreover have "step key a b d1 d2" using lp(2) by (rule step_widen) simp_all
      ultimately show ?thesis using st0 fin(2) by (blast intro: step_trans)
    qed
    ultimately show ?thesis using f1 fin(3,4) by blast
  qed
qed

subsection \<open>partitionEqual\<close>

text \<open>
  The pivot is a least key of the range; the keys equal to it are gathered at the left.
\<close>

lemma partitionEqual_skipNotLess_correct:
  assumes kd: "keyed key lt Less" and "a < length data" and "jj \<le> length data"
  shows "\<exists>i'. partitionEqual_skipNotLess Less data a i jj = Some i' \<and> i \<le> i' \<and> i' \<le> max i jj
    \<and> (\<forall>k. i \<le> k \<and> k < i' \<longrightarrow> \<not> lt (map key data ! a) (map key data ! k))
    \<and> (i' < jj \<longrightarrow> lt (map key data ! a) (map key data ! i'))"
proof (induction "jj - i" arbitrary: i)
  case 0
  then show ?case by (subst partitionEqual_skipNotLess.simps) auto
next
  case (Suc n)
  then have ij: "i < jj" by simp
  then have il: "i < length data" using assms(3) by simp
  have less: "Less data a i = Some (lt (map key data ! a) (map key data ! i))"
    by (rule keyed_Less [OF kd assms(2) il])
  show ?case
  proof (cases "lt (map key data ! a) (map key data ! i)")
    case True
    with ij less show ?thesis by (subst partitionEqual_skipNotLess.simps) auto
  next
    case False
    from Suc.hyps(2) have "n = jj - Suc i" by simp
    from Suc.hyps(1) [OF this] obtain i' where
      r: "partitionEqual_skipNotLess Less data a (Suc i) jj = Some i'" "Suc i \<le> i'"
        "i' \<le> max (Suc i) jj"
        "\<forall>k. Suc i \<le> k \<and> k < i' \<longrightarrow> \<not> lt (map key data ! a) (map key data ! k)"
        "i' < jj \<longrightarrow> lt (map key data ! a) (map key data ! i')"
      by blast
    have "\<forall>k. i \<le> k \<and> k < i' \<longrightarrow> \<not> lt (map key data ! a) (map key data ! k)"
    proof (intro allI impI)
      fix k assume "i \<le> k \<and> k < i'"
      then show "\<not> lt (map key data ! a) (map key data ! k)"
        using r(4) False by (cases "k = i") auto
    qed
    moreover have "partitionEqual_skipNotLess Less data a i jj = Some i'"
      using ij less False r(1) by (subst partitionEqual_skipNotLess.simps) simp
    ultimately show ?thesis using r(2,3,5) ij by auto
  qed
qed

lemma partitionEqual_skipLess_correct:
  assumes kd: "keyed key lt Less" and "a < length data"
  shows "jj \<le> length data \<Longrightarrow>
    \<exists>jj'. partitionEqual_skipLess Less data a i jj = Some jj' \<and> jj' \<le> jj \<and> min i jj \<le> jj'
    \<and> (i < jj' \<longrightarrow> \<not> lt (map key data ! a) (map key data ! (jj' - 1)))"
proof (induction jj)
  case 0
  then show ?case by (subst partitionEqual_skipLess.simps) auto
next
  case (Suc j)
  show ?case
  proof (cases "i < Suc j")
    case False
    then show ?thesis by (subst partitionEqual_skipLess.simps) auto
  next
    case ij: True
    have jl: "j < length data" using Suc.prems by simp
    have less: "Less data a (Suc j - 1) = Some (lt (map key data ! a) (map key data ! j))"
      using keyed_Less [OF kd assms(2) jl] by simp
    show ?thesis
    proof (cases "lt (map key data ! a) (map key data ! j)")
      case False
      with ij less show ?thesis by (subst partitionEqual_skipLess.simps) auto
    next
      case True
      from Suc.IH jl obtain jj' where
        r: "partitionEqual_skipLess Less data a i j = Some jj'" "jj' \<le> j" "min i j \<le> jj'"
          "i < jj' \<longrightarrow> \<not> lt (map key data ! a) (map key data ! (jj' - 1))"
        by auto
      have "partitionEqual_skipLess Less data a i (Suc j) = Some jj'"
        using ij less True r(1) by (subst partitionEqual_skipLess.simps) simp
      then show ?thesis using r(2,3,4) ij by auto
    qed
  qed
qed

lemma partitionEqual_loop_correct:
  assumes kd: "keyed key lt Less" and cp: "compat lt"
  shows "a < i \<Longrightarrow> jj \<le> b \<Longrightarrow> b \<le> length data \<Longrightarrow> a < b \<Longrightarrow>
    (\<forall>k. a \<le> k \<and> k < b \<longrightarrow> map key data ! a \<le> map key data ! k) \<Longrightarrow>
    (\<forall>k. a < k \<and> k < i \<longrightarrow> map key data ! k = map key data ! a) \<Longrightarrow>
    \<exists>d' i'. partitionEqual_loop Less data a i jj = Some (d', i')
      \<and> step key (Suc a) b data d' \<and> i \<le> i' \<and> i' \<le> max i jj
      \<and> (\<forall>k. a \<le> k \<and> k < b \<longrightarrow> map key d' ! a \<le> map key d' ! k)
      \<and> (\<forall>k. a < k \<and> k < i' \<longrightarrow> map key d' ! k = map key d' ! a)"
proof (induction "jj - i" arbitrary: i jj data rule: less_induct)
  case less
  note nth_map [simp del]
  let ?K = "map key data"
  let ?p = "?K ! a"
  have al: "a < length data" using less.prems(3,4) by simp
  have jjl: "jj \<le> length data" using less.prems(2,3) by simp
  from partitionEqual_skipNotLess_correct [OF kd al jjl, of i] obtain i1 where
    s1: "partitionEqual_skipNotLess Less data a i jj = Some i1" "i \<le> i1" "i1 \<le> max i jj"
      "\<forall>k. i \<le> k \<and> k < i1 \<longrightarrow> \<not> lt ?p (?K ! k)"
      "i1 < jj \<longrightarrow> lt ?p (?K ! i1)"
    by blast
  from partitionEqual_skipLess_correct [OF kd al jjl, of i1] obtain jj1 where
    s2: "partitionEqual_skipLess Less data a i1 jj = Some jj1" "jj1 \<le> jj" "min i1 jj \<le> jj1"
      "i1 < jj1 \<longrightarrow> \<not> lt ?p (?K ! (jj1 - 1))"
    by blast
  have E: "?K ! k = ?p" if "a < k" "k < i1" for k
  proof (cases "k < i")
    case True
    with that less.prems(6) show ?thesis by simp
  next
    case False
    with that s1(4) have "\<not> lt ?p (?K ! k)" by simp
    then have "?K ! k \<le> ?p" using cp by (rule compat_not_lt [rotated])
    moreover have "k < b"
      using that(2) s1(3) less.prems(2) False by (auto simp add: max_def split: if_splits)
    then have "?p \<le> ?K ! k" using less.prems(5) that(1) by simp
    ultimately show ?thesis by simp
  qed
  show ?case
  proof (cases "jj1 \<le> i1")
    case True
    have "partitionEqual_loop Less data a i jj = Some (data, i1)"
      using s1(1) s2(1) True by (subst partitionEqual_loop.simps) simp
    then show ?thesis
      using s1(2,3) E less.prems(5) by (auto simp add: step_refl)
  next
    case False
    then have lt12: "i1 < jj1" by simp
    have eq: "?K ! (jj1 - 1) = ?p"
    proof -
      have "\<not> lt ?p (?K ! (jj1 - 1))" using s2(4) lt12 by simp
      then have "?K ! (jj1 - 1) \<le> ?p" using cp by (rule compat_not_lt [rotated])
      moreover have "a \<le> jj1 - 1 \<and> jj1 - 1 < b"
        using lt12 s1(2) less.prems(1,2) s2(2) by arith
      then have "?p \<le> ?K ! (jj1 - 1)" using less.prems(5) by simp
      ultimately show ?thesis by simp
    qed
    have r1: "i1 < length data" "jj1 - 1 < length data"
      using lt12 s2(2) jjl by simp_all
    have r2: "Suc a \<le> i1" "i1 < b" "Suc a \<le> jj1 - 1" "jj1 - 1 < b"
      using less.prems(1,2) s1(2) s2(2) lt12 by simp_all
    from Swap_step [OF r1 r2, of key] obtain d1 where
      sw: "Swap data i1 (jj1 - 1) = Some d1" and st: "step key (Suc a) b data d1"
      and k1: "map key d1 = ?K[i1 := ?K ! (jj1 - 1), jj1 - 1 := ?K ! i1]"
      by blast
    let ?K1 = "map key d1"
    have len1: "length d1 = length data" using st by (rule step_length)
    have pa: "?K1 ! a = ?p" using st by (simp add: step_nth_outside)
    have n1: "?K1 ! k = (if k = jj1 - 1 then ?K ! i1 else if k = i1 then ?K ! (jj1 - 1) else ?K ! k)"
      if "k < length data" for k
      using that r1 unfolding k1 by (simp add: nth_list_update)
    have m: "jj1 - 1 - (i1 + 1) < jj - i" using s1(2) s2(2) lt12 by simp
    have q1: "a < i1 + 1" using r2 by simp
    have q3: "jj1 - 1 \<le> b" using r2 by simp
    have q4: "b \<le> length d1" using less.prems(3) len1 by simp
    have q5: "\<forall>k. a \<le> k \<and> k < b \<longrightarrow> ?K1 ! a \<le> ?K1 ! k"
    proof (intro allI impI)
      fix k assume k: "a \<le> k \<and> k < b"
      then have kl: "k < length data" using less.prems(3) by simp
      have "?p \<le> ?K ! i1" "?p \<le> ?K ! (jj1 - 1)" "?p \<le> ?K ! k"
        using less.prems(5) r2 k by simp_all
      then show "?K1 ! a \<le> ?K1 ! k" using n1 [OF kl] pa by simp
    qed
    have q6: "\<forall>k. a < k \<and> k < i1 + 1 \<longrightarrow> ?K1 ! k = ?K1 ! a"
    proof (intro allI impI)
      fix k assume k: "a < k \<and> k < i1 + 1"
      then have kl: "k < length data" using r1 by simp
      show "?K1 ! k = ?K1 ! a"
      proof (cases "k = i1")
        case True
        then show ?thesis using n1 [OF kl] eq pa by simp
      next
        case False
        with k have "k < i1" by simp
        moreover from this lt12 have "k \<noteq> jj1 - 1" by arith
        ultimately show ?thesis using k E [of k] n1 [OF kl] pa False by simp
      qed
    qed
    from less.hyps [OF m q1 q3 q4 less.prems(4) q5 q6] obtain d' i' where
      r: "partitionEqual_loop Less d1 a (i1 + 1) (jj1 - 1) = Some (d', i')"
        "step key (Suc a) b d1 d'" "i1 + 1 \<le> i'" "i' \<le> max (i1 + 1) (jj1 - 1)"
        "\<forall>k. a \<le> k \<and> k < b \<longrightarrow> map key d' ! a \<le> map key d' ! k"
        "\<forall>k. a < k \<and> k < i' \<longrightarrow> map key d' ! k = map key d' ! a"
      by blast
    have "partitionEqual_loop Less data a i jj = Some (d', i')"
      using s1(1) s2(1) False sw r(1) by (subst partitionEqual_loop.simps) simp
    moreover have "step key (Suc a) b data d'" using st r(2) by (rule step_trans)
    moreover have "i \<le> i'" using r(3) s1(2) by simp
    moreover have "i' \<le> max i jj" using r(4) lt12 s2(2) by (auto simp add: max_def split: if_splits)
    ultimately show ?thesis using r(5,6) by blast
  qed
qed

lemma partitionEqual_func_correct:
  assumes kd: "keyed key lt Less" and cp: "compat lt"
    and ab: "a < b" and bl: "b \<le> length data" and pv: "a \<le> pivot" "pivot < b"
    and mn: "\<forall>k. a \<le> k \<and> k < b \<longrightarrow> map key data ! pivot \<le> map key data ! k"
  shows "\<exists>d' mid. partitionEqual_func Less data a b pivot = Some (d', mid)
    \<and> step key a b data d' \<and> a < mid \<and> mid \<le> b
    \<and> (\<forall>k l. a \<le> k \<and> k < mid \<and> a \<le> l \<and> l < b \<longrightarrow> map key d' ! k \<le> map key d' ! l)"
proof -
  note nth_map [simp del]
  let ?K = "map key data"
  have r1: "a < length data" "pivot < length data" using ab bl pv by simp_all
  have r2: "a \<le> a" "a < b" "a \<le> pivot" "pivot < b" using ab pv by simp_all
  from Swap_step [OF r1 r2, of key] obtain d0 where
    sw0: "Swap data a pivot = Some d0" and st0: "step key a b data d0"
    and k0: "map key d0 = ?K[a := ?K ! pivot, pivot := ?K ! a]"
    by blast
  let ?Kz = "map key d0"
  have len0: "length d0 = length data" using st0 by (rule step_length)
  have n0: "?Kz ! k = (if k = pivot then ?K ! a else if k = a then ?K ! pivot else ?K ! k)"
    if "k < length data" for k
    using that r1 unfolding k0 by (auto simp add: nth_list_update)
  have pa: "?Kz ! a = ?K ! pivot" using n0 [OF r1(1)] by simp
  have p5: "\<forall>k. a \<le> k \<and> k < b \<longrightarrow> ?Kz ! a \<le> ?Kz ! k"
  proof (intro allI impI)
    fix k assume k: "a \<le> k \<and> k < b"
    then have kl: "k < length data" using bl by simp
    have "?K ! pivot \<le> ?K ! a" "?K ! pivot \<le> ?K ! pivot" "?K ! pivot \<le> ?K ! k"
      using mn ab k by simp_all
    then show "?Kz ! a \<le> ?Kz ! k" using n0 [OF kl] pa by simp
  qed
  have p1: "a < a + 1" by simp
  have p3: "b \<le> b" by simp
  have p4: "b \<le> length d0" using bl len0 by simp
  have p6: "\<forall>k. a < k \<and> k < a + 1 \<longrightarrow> ?Kz ! k = ?Kz ! a" by auto
  from partitionEqual_loop_correct [OF kd cp p1 p3 p4 ab p5 p6] obtain d' mid where
    r: "partitionEqual_loop Less d0 a (a + 1) b = Some (d', mid)"
      "step key (Suc a) b d0 d'" "a + 1 \<le> mid" "mid \<le> max (a + 1) b"
      "\<forall>k. a \<le> k \<and> k < b \<longrightarrow> map key d' ! a \<le> map key d' ! k"
      "\<forall>k. a < k \<and> k < mid \<longrightarrow> map key d' ! k = map key d' ! a"
    by blast
  have "partitionEqual_func Less data a b pivot = Some (d', mid)"
    using sw0 r(1) by (simp add: partitionEqual_func_def)
  moreover have "step key a b data d'"
  proof -
    have "step key a b d0 d'" using r(2) by (rule step_widen) simp_all
    with st0 show ?thesis by (rule step_trans)
  qed
  moreover have "a < mid" "mid \<le> b" using r(3,4) ab by simp_all
  moreover have "\<forall>k l. a \<le> k \<and> k < mid \<and> a \<le> l \<and> l < b \<longrightarrow> map key d' ! k \<le> map key d' ! l"
  proof (intro allI impI)
    fix k l assume kl: "a \<le> k \<and> k < mid \<and> a \<le> l \<and> l < b"
    have "map key d' ! k = map key d' ! a"
      using r(6) kl by (cases "k = a") auto
    then show "map key d' ! k \<le> map key d' ! l" using r(5) kl by simp
  qed
  ultimately show ?thesis by blast
qed

subsection \<open>choosePivot, reverseRange and breakPatterns\<close>

lemma order2_func_correct:
  assumes kd: "keyed key lt Less" and "x < length data" and "y < length data"
  shows "\<exists>x' y' s'. order2_func Less data x y s = Some (x', y', s')
    \<and> ((x' = x \<and> y' = y) \<or> (x' = y \<and> y' = x))"
  using keyed_Less [OF kd assms(3,2)] by (simp add: order2_func_def)

lemma median_func_correct:
  assumes kd: "keyed key lt Less"
    and "x < length data" and "y < length data" and "z < length data"
  shows "\<exists>m s'. median_func Less data x y z s = Some (m, s') \<and> (m = x \<or> m = y \<or> m = z)"
proof -
  from order2_func_correct [OF kd assms(2,3), of s] obtain x1 y1 s1 where
    o1: "order2_func Less data x y s = Some (x1, y1, s1)"
      "(x1 = x \<and> y1 = y) \<or> (x1 = y \<and> y1 = x)" by blast
  then have l1: "x1 < length data" "y1 < length data" using assms(2,3) by auto
  from order2_func_correct [OF kd l1(2) assms(4), of s1] obtain y2 z2 s2 where
    o2: "order2_func Less data y1 z s1 = Some (y2, z2, s2)"
      "(y2 = y1 \<and> z2 = z) \<or> (y2 = z \<and> z2 = y1)" by blast
  then have l2: "y2 < length data" using l1(2) assms(4) by auto
  from order2_func_correct [OF kd l1(1) l2, of s2] obtain x3 y3 s3 where
    o3: "order2_func Less data x1 y2 s2 = Some (x3, y3, s3)"
      "(x3 = x1 \<and> y3 = y2) \<or> (x3 = y2 \<and> y3 = x1)" by blast
  have "median_func Less data x y z s = Some (y3, s3)"
    using o1(1) o2(1) o3(1) by (simp add: median_func_def)
  moreover have "y3 = x \<or> y3 = y \<or> y3 = z" using o1(2) o2(2) o3(2) by auto
  ultimately show ?thesis by blast
qed

lemma medianAdjacent_func_correct:
  assumes kd: "keyed key lt Less" and "0 < x" and "x + 1 < length data"
  shows "\<exists>m s'. medianAdjacent_func Less data x s = Some (m, s') \<and> x - 1 \<le> m \<and> m \<le> x + 1"
proof -
  have "x - 1 < length data" "x < length data" using assms(3) by simp_all
  from median_func_correct [OF kd this assms(3), of s] show ?thesis
    unfolding medianAdjacent_func_def by auto
qed

lemma choosePivot_func_correct:
  assumes kd: "keyed key lt Less" and bl: "b \<le> length data" and len: "8 \<le> b - a"
  shows "\<exists>pivot hint. choosePivot_func Less data a b = Some (pivot, hint)
    \<and> a \<le> pivot \<and> pivot < b"
proof -
  define l where "l = b - a"
  define q where "q = l div 4"
  have q: "2 \<le> q" "4 * q \<le> l" using len by (simp_all add: q_def l_def)
  have bl': "a + l \<le> length data" using bl len by (simp add: l_def)
  have "\<exists>i j k s. (if 50 \<le> l then do {
            (i, swaps) \<leftarrow> medianAdjacent_func Less data (a + q * 1) 0;
            (j, swaps) \<leftarrow> medianAdjacent_func Less data (a + q * 2) swaps;
            (k, swaps) \<leftarrow> medianAdjacent_func Less data (a + q * 3) swaps;
            Some (i, j, k, swaps)
          } else Some (a + q * 1, a + q * 2, a + q * 3, 0)) = Some (i, j, k, s)
       \<and> a \<le> i \<and> i < a + l \<and> a \<le> j \<and> j < a + l \<and> a \<le> k \<and> k < a + l"
  proof (cases "50 \<le> l")
    case False
    then show ?thesis using q by simp
  next
    case True
    have "0 < a + q * 1" "a + q * 1 + 1 < length data" using q bl' by simp_all
    from medianAdjacent_func_correct [OF kd this, of 0] obtain i s1 where
      m1: "medianAdjacent_func Less data (a + q * 1) 0 = Some (i, s1)"
        "a + q * 1 - 1 \<le> i" "i \<le> a + q * 1 + 1" by blast
    have "0 < a + q * 2" "a + q * 2 + 1 < length data" using q bl' by simp_all
    from medianAdjacent_func_correct [OF kd this, of s1] obtain j s2 where
      m2: "medianAdjacent_func Less data (a + q * 2) s1 = Some (j, s2)"
        "a + q * 2 - 1 \<le> j" "j \<le> a + q * 2 + 1" by blast
    have "0 < a + q * 3" "a + q * 3 + 1 < length data" using q bl' by simp_all
    from medianAdjacent_func_correct [OF kd this, of s2] obtain k s3 where
      m3: "medianAdjacent_func Less data (a + q * 3) s2 = Some (k, s3)"
        "a + q * 3 - 1 \<le> k" "k \<le> a + q * 3 + 1" by blast
    have "a \<le> i \<and> i < a + l \<and> a \<le> j \<and> j < a + l \<and> a \<le> k \<and> k < a + l"
      using m1(2,3) m2(2,3) m3(2,3) q by arith
    then show ?thesis using True m1(1) m2(1) m3(1) by simp
  qed
  then obtain i j k s where
    ijk: "(if 50 \<le> l then do {
            (i, swaps) \<leftarrow> medianAdjacent_func Less data (a + q * 1) 0;
            (j, swaps) \<leftarrow> medianAdjacent_func Less data (a + q * 2) swaps;
            (k, swaps) \<leftarrow> medianAdjacent_func Less data (a + q * 3) swaps;
            Some (i, j, k, swaps)
          } else Some (a + q * 1, a + q * 2, a + q * 3, 0)) = Some (i, j, k, s)"
    and rng: "a \<le> i" "i < a + l" "a \<le> j" "j < a + l" "a \<le> k" "k < a + l"
    by blast
  have "i < length data" "j < length data" "k < length data" using rng bl' by simp_all
  from median_func_correct [OF kd this, of s] obtain m s' where
    md: "median_func Less data i j k s = Some (m, s')" "m = i \<or> m = j \<or> m = k" by blast
  have "a \<le> m \<and> m < b" using md(2) rng len by (auto simp add: l_def)
  moreover have "\<exists>hint. choosePivot_func Less data a b = Some (m, hint)"
    using len ijk md(1) unfolding choosePivot_func_def Let_def l_def [symmetric] q_def [symmetric]
    by (simp add: l_def)
  ultimately show ?thesis by blast
qed

lemma reverseRange_loop_correct:
  "a \<le> i \<Longrightarrow> jj \<le> b \<Longrightarrow> b \<le> length data \<Longrightarrow>
   \<exists>d'. reverseRange_loop data i jj = Some d' \<and> step key a b data d'"
proof (induction "jj - i" arbitrary: i jj data rule: less_induct)
  case less
  show ?case
  proof (cases "i + 1 < jj")
    case False
    then show ?thesis by (subst reverseRange_loop.simps) (simp add: step_refl)
  next
    case True
    have r1: "i < length data" "jj - 1 < length data" using True less.prems by simp_all
    have r2: "a \<le> i" "i < b" "a \<le> jj - 1" "jj - 1 < b" using True less.prems by simp_all
    from Swap_step [OF r1 r2, of key] obtain d1 where
      sw: "Swap data i (jj - 1) = Some d1" and st: "step key a b data d1" by blast
    have len1: "length d1 = length data" using st by (rule step_length)
    have m: "jj - 1 - (i + 1) < jj - i" using True by simp
    have "a \<le> i + 1" "jj - 1 \<le> b" "b \<le> length d1" using less.prems len1 by simp_all
    from less.hyps [OF m this] obtain d' where
      r: "reverseRange_loop d1 (i + 1) (jj - 1) = Some d'" "step key a b d1 d'" by blast
    have "reverseRange_loop data i jj = Some d'"
      using True sw r(1) by (subst reverseRange_loop.simps) simp
    with step_trans [OF st r(2)] show ?thesis by blast
  qed
qed

lemma reverseRange_func_correct:
  "b \<le> length data \<Longrightarrow> \<exists>d'. reverseRange_func data a b = Some d' \<and> step key a b data d'"
  unfolding reverseRange_func_def by (rule reverseRange_loop_correct) simp_all

lemma bitsLen_bound: "0 < n \<Longrightarrow> 2 ^ bitsLen n \<le> 2 * n"
proof (induction n rule: less_induct)
  case (less n)
  show ?case
  proof (cases "n div 2 = 0")
    case True
    with less.prems have n1: "n = 1" by arith
    have "bitsLen 0 = 0" by (subst bitsLen.simps) simp
    then have "bitsLen 1 = 1" by (subst bitsLen.simps) simp
    with n1 show ?thesis by simp
  next
    case False
    then have "n div 2 < n" "0 < n div 2" using less.prems by simp_all
    from less.IH [OF this] have "2 ^ bitsLen (n div 2) \<le> 2 * (n div 2)" .
    moreover have "bitsLen n = Suc (bitsLen (n div 2))"
      using less.prems by (subst bitsLen.simps) simp
    ultimately show ?thesis by simp
  qed
qed

lemma breakPatterns_other:
  assumes "0 < len"
  shows "(let other = unat (r :: 64 word) AND (nextPowerOfTwo len - 1)
          in if other \<ge> len then other - len else other) < len"
proof -
  have "unat r AND (nextPowerOfTwo len - 1) = take_bit (bitsLen len) (unat r)"
    by (simp add: nextPowerOfTwo_def take_bit_eq_mask mask_eq_exp_minus_1)
  moreover have "take_bit (bitsLen len) (unat r) < 2 * len"
    using take_bit_nat_less_exp [of "bitsLen len" "unat r"] bitsLen_bound [OF assms]
    by (rule less_le_trans)
  ultimately have "unat r AND (nextPowerOfTwo len - 1) < 2 * len" by simp
  then show ?thesis using assms unfolding Let_def by (simp split: if_splits) arith
qed

lemma breakPatterns_loop_correct:
  assumes "0 < len" and "a + len \<le> b" and "b \<le> length data"
  shows "a \<le> idx + i \<Longrightarrow> idx + i + n \<le> b \<Longrightarrow> b \<le> length data \<Longrightarrow>
    \<exists>d'. breakPatterns_loop data a len (nextPowerOfTwo len) idx random i n = Some d'
      \<and> step key a b data d'"
proof (induction n arbitrary: data random i)
  case 0
  then show ?case by (simp add: step_refl)
next
  case (Suc n)
  define other where "other = (let other = unat (xorshift_Next random) AND (nextPowerOfTwo len - 1)
          in if other \<ge> len then other - len else other)"
  have ol: "other < len" unfolding other_def by (rule breakPatterns_other [OF assms(1)])
  have r1: "idx + i < length data" "a + other < length data"
    using Suc.prems ol assms(2) by simp_all
  have r2: "a \<le> idx + i" "idx + i < b" "a \<le> a + other" "a + other < b"
    using Suc.prems ol assms(2) by simp_all
  from Swap_step [OF r1 r2, of key] obtain d1 where
    sw: "Swap data (idx + i) (a + other) = Some d1" and st: "step key a b data d1" by blast
  have len1: "length d1 = length data" using st by (rule step_length)
  have "a \<le> idx + (i + 1)" "idx + (i + 1) + n \<le> b" "b \<le> length d1"
    using Suc.prems len1 by simp_all
  from Suc.IH [OF this] obtain d' where
    r: "breakPatterns_loop d1 a len (nextPowerOfTwo len) idx (xorshift_Next random) (i + 1) n
          = Some d'" "step key a b d1 d'" by blast
  have "breakPatterns_loop data a len (nextPowerOfTwo len) idx random i (Suc n) = Some d'"
    using sw r(1) by (simp add: Let_def other_def)
  with step_trans [OF st r(2)] show ?case by blast
qed

lemma breakPatterns_func_correct:
  assumes "a \<le> b" and "b \<le> length data"
  shows "\<exists>d'. breakPatterns_func data a b = Some d' \<and> step key a b data d'"
proof (cases "8 \<le> b - a")
  case False
  then show ?thesis by (simp add: breakPatterns_func_def step_refl)
next
  case True
  define len where "len = b - a"
  define idx where "idx = a + (len div 4) * 2 - 1"
  have l: "0 < len" "a + len \<le> b" "8 \<le> len" using True assms(1) by (simp_all add: len_def)
  have i1: "a \<le> idx + 0" using l(3) unfolding idx_def by arith
  have i2: "idx + 0 + 3 \<le> b" using l(2,3) unfolding idx_def by arith
  from breakPatterns_loop_correct [OF l(1,2) assms(2) i1 i2 assms(2), where key = key]
  show ?thesis
    using True unfolding breakPatterns_func_def Let_def len_def [symmetric] idx_def [symmetric]
    by (simp add: len_def)
qed

subsection \<open>partialInsertionSort\<close>

text \<open>
  The loop that shifts the smaller element to the left runs while \<^verbatim>\<open>j >= 1\<close>, so it can
  pass \<open>a\<close>; there it only swaps elements whose keys are equal, because every key left
  of \<open>a\<close> is at most the keys of the range.
\<close>

lemma lboundD: "lbound a b ks \<Longrightarrow> p < a \<Longrightarrow> a \<le> r \<Longrightarrow> r < b \<Longrightarrow> ks ! p \<le> ks ! r"
  by (simp add: lbound_def)

lemma lbound_within:
  assumes "lbound a b ks" and "within a b ks ks'"
  shows "lbound a b ks'"
  unfolding lbound_def
proof (intro allI impI)
  fix p r assume pr: "p < a \<and> a \<le> r \<and> r < b"
  then have "ks' ! p = ks ! p" using within_outside [OF assms(2), of p] by simp
  moreover from within_inside [OF assms(2), of r] pr obtain r' where
    "a \<le> r'" "r' < b" "ks' ! r = ks ! r'" by blast
  ultimately show "ks' ! p \<le> ks' ! r" using lboundD [OF assms(1), of p r'] pr by simp
qed

lemma lbound_step: "lbound a b (map key d) \<Longrightarrow> step key a b d d' \<Longrightarrow> lbound a b (map key d')"
  unfolding step_def using lbound_within by blast

lemma lbound_narrow: "lbound a b ks \<Longrightarrow> b' \<le> b \<Longrightarrow> lbound a b' ks"
  unfolding lbound_def by auto

lemma partialInsertionSort_shiftLeft_equal:
  assumes kd: "keyed key lt Less" and cp: "compat lt"
  shows "j < length data \<Longrightarrow> (\<forall>p<j. map key data ! p \<le> map key data ! j) \<Longrightarrow>
    \<exists>d'. partialInsertionSort_shiftLeft Less data j = Some d' \<and> mset d' = mset data
      \<and> map key d' = map key data"
proof (induction j arbitrary: data)
  case 0
  then show ?case by (subst partialInsertionSort_shiftLeft.simps) simp
next
  case (Suc j)
  note nth_map [simp del]
  let ?K = "map key data"
  have jl: "Suc j < length data" "j < length data" using Suc.prems(1) by simp_all
  have less: "Less data (Suc j) (Suc j - 1) = Some (lt (?K ! Suc j) (?K ! j))"
    using keyed_Less [OF kd jl] by simp
  show ?case
  proof (cases "lt (?K ! Suc j) (?K ! j)")
    case False
    with less show ?thesis by (subst partialInsertionSort_shiftLeft.simps) simp
  next
    case True
    then have "?K ! Suc j \<le> ?K ! j" using cp by (rule compat_lt [rotated])
    moreover have "?K ! j \<le> ?K ! Suc j" using Suc.prems(2) by simp
    ultimately have eq: "?K ! j = ?K ! Suc j" by simp
    have r: "0 \<le> Suc j" "Suc j < length data" "0 \<le> j" "j < length data" using jl by simp_all
    from Swap_step [OF jl r, of key] obtain d1 where
      sw: "Swap data (Suc j) j = Some d1" and st: "step key 0 (length data) data d1"
      and k1: "map key d1 = ?K[Suc j := ?K ! j, j := ?K ! Suc j]" by blast
    have e1: "?K[Suc j := ?K ! j] = ?K" unfolding eq by simp
    have e2: "?K[j := ?K ! Suc j] = ?K" unfolding eq [symmetric] by simp
    have k1': "map key d1 = ?K" unfolding k1 e1 e2 ..
    have m1: "mset d1 = mset data" using st by (simp add: step_def)
    have len1: "length d1 = length data" using st by (rule step_length)
    have "j < length d1" using jl len1 by simp
    moreover have "\<forall>p<j. map key d1 ! p \<le> map key d1 ! j"
      unfolding k1' using Suc.prems(2) eq by simp
    ultimately obtain d' where
      r: "partialInsertionSort_shiftLeft Less d1 j = Some d'" "mset d' = mset d1"
        "map key d' = map key d1" using Suc.IH by blast
    have "partialInsertionSort_shiftLeft Less data (Suc j) = Some d'"
      using less True sw r(1) by (subst partialInsertionSort_shiftLeft.simps) simp
    then show ?thesis using r(2,3) m1 k1' by simp
  qed
qed

lemma partialInsertionSort_shiftLeft_inner:
  "a \<le> j \<Longrightarrow> insertionSort_inner Less data a j = Some d1 \<Longrightarrow>
   partialInsertionSort_shiftLeft Less data j = Some d1
   \<or> partialInsertionSort_shiftLeft Less data j = partialInsertionSort_shiftLeft Less d1 a"
proof (induction j arbitrary: data)
  case 0
  then have "a = 0" by simp
  with 0 show ?case by (subst (asm) insertionSort_inner.simps) simp
next
  case (Suc j)
  show ?case
  proof (cases "a < Suc j")
    case False
    with Suc.prems(1) have "a = Suc j" by simp
    with Suc.prems(2) show ?thesis by (subst (asm) insertionSort_inner.simps) simp
  next
    case True
    from Suc.prems(2) True obtain lt where
      less: "Less data (Suc j) (Suc j - 1) = Some lt"
      and rest: "(if lt then do {
          data' \<leftarrow> Swap data (Suc j) (Suc j - 1);
          insertionSort_inner Less data' a (Suc j - 1)
        } else Some data) = Some d1"
      by (subst (asm) insertionSort_inner.simps) (auto simp add: bind_eq_Some_conv)
    show ?thesis
    proof (cases lt)
      case False
      with rest have "d1 = data" by simp
      with less False show ?thesis by (subst partialInsertionSort_shiftLeft.simps) simp
    next
      case lt: True
      with rest obtain d2 where sw: "Swap data (Suc j) (Suc j - 1) = Some d2"
        and inner: "insertionSort_inner Less d2 a j = Some d1"
        by (auto simp add: bind_eq_Some_conv)
      have aj: "a \<le> j" using True by simp
      have "partialInsertionSort_shiftLeft Less data (Suc j)
          = partialInsertionSort_shiftLeft Less d2 j"
        using less lt sw by (subst partialInsertionSort_shiftLeft.simps) simp
      with Suc.IH [OF aj inner] show ?thesis by simp
    qed
  qed
qed

lemma partialInsertionSort_shiftLeft_correct:
  assumes kd: "keyed key lt Less" and cp: "compat lt"
    and aj: "a \<le> j" and jl: "j < length data"
    and so: "sortedIn a j (map key data)"
    and lb: "lbound a (Suc j) (map key data)"
  shows "\<exists>d'. partialInsertionSort_shiftLeft Less data j = Some d' \<and> step key a (Suc j) data d'
      \<and> sortedIn a (Suc j) (map key d')"
proof -
  note nth_map [simp del]
  have "\<exists>d1. insertionSort_inner Less data a j = Some d1 \<and> step key a (Suc j) data d1
       \<and> sortedIn a (Suc j) (map key d1)"
  proof (rule insertionSort_inner_correct [OF kd cp aj _ jl so])
    show "j \<le> j" by simp
    show "sortedIn j (Suc j) (map key data)" by (rule sortedIn_single) simp
    show "\<forall>k l. a \<le> k \<and> k < j \<and> j < l \<and> l \<le> j \<longrightarrow> map key data ! k \<le> map key data ! l"
      by auto
  qed
  then obtain d1 where d1: "insertionSort_inner Less data a j = Some d1"
    "step key a (Suc j) data d1" "sortedIn a (Suc j) (map key d1)" by blast
  from partialInsertionSort_shiftLeft_inner [OF aj d1(1)]
  show ?thesis
  proof
    assume "partialInsertionSort_shiftLeft Less data j = Some d1"
    with d1 show ?thesis by blast
  next
    assume eq: "partialInsertionSort_shiftLeft Less data j
      = partialInsertionSort_shiftLeft Less d1 a"
    have len1: "length d1 = length data" using d1(2) by (rule step_length)
    have lb1: "lbound a (Suc j) (map key d1)" using lb d1(2) by (rule lbound_step)
    have al: "a < length d1" using aj jl len1 by simp
    have "\<forall>p<a. map key d1 ! p \<le> map key d1 ! a"
      using lboundD [OF lb1, of _ a] aj by simp
    from partialInsertionSort_shiftLeft_equal [OF kd cp al this] obtain d' where
      r: "partialInsertionSort_shiftLeft Less d1 a = Some d'" "mset d' = mset d1"
        "map key d' = map key d1" by blast
    have "step key a (Suc j) d1 d'" using r(2,3) by (simp add: step_def within_refl)
    with d1(2) have "step key a (Suc j) data d'" by (rule step_trans)
    with eq r d1(3) show ?thesis by simp
  qed
qed

lemma partialInsertionSort_shiftRight_correct:
  assumes kd: "keyed key lt Less"
  shows "i < j \<Longrightarrow> b \<le> length data \<Longrightarrow>
    \<exists>d'. partialInsertionSort_shiftRight Less data j b = Some d' \<and> step key i b data d'"
proof (induction "b - j" arbitrary: j data rule: less_induct)
  case less
  show ?case
  proof (cases "j < b")
    case False
    then show ?thesis by (subst partialInsertionSort_shiftRight.simps) (simp add: step_refl)
  next
    case True
    have jl: "j < length data" "j - 1 < length data" using True less.prems by simp_all
    obtain l where l: "Less data j (j - 1) = Some l" using keyed_Less [OF kd jl] by blast
    show ?thesis
    proof (cases l)
      case False
      with l True show ?thesis
        by (subst partialInsertionSort_shiftRight.simps) (simp add: step_refl)
    next
      case lt: True
      have r: "i \<le> j" "j < b" "i \<le> j - 1" "j - 1 < b" using True less.prems by simp_all
      from Swap_step [OF jl r, of key] obtain d1 where
        sw: "Swap data j (j - 1) = Some d1" and st: "step key i b data d1" by blast
      have len1: "length d1 = length data" using st by (rule step_length)
      have "b - (j + 1) < b - j" "i < j + 1" "b \<le> length d1"
        using True less.prems len1 by simp_all
      from less.hyps [OF this] obtain d' where
        r: "partialInsertionSort_shiftRight Less d1 (j + 1) b = Some d'" "step key i b d1 d'"
        by blast
      have "partialInsertionSort_shiftRight Less data j b = Some d'"
        using True l lt sw r(1) by (subst partialInsertionSort_shiftRight.simps) simp
      with step_trans [OF st r(2)] show ?thesis by blast
    qed
  qed
qed

lemma partialInsertionSort_scan_correct:
  assumes kd: "keyed key lt Less" and cp: "compat lt"
  shows "a < i \<Longrightarrow> i \<le> b \<Longrightarrow> b \<le> length data \<Longrightarrow> sortedIn a i (map key data) \<Longrightarrow>
    \<exists>i'. partialInsertionSort_scan Less data i b = Some i' \<and> i \<le> i' \<and> i' \<le> b
      \<and> sortedIn a i' (map key data)
      \<and> (i' < b \<longrightarrow> map key data ! i' \<le> map key data ! (i' - 1))"
proof (induction "b - i" arbitrary: i rule: less_induct)
  case less
  note nth_map [simp del]
  let ?K = "map key data"
  show ?case
  proof (cases "i < b")
    case False
    with less.prems show ?thesis by (subst partialInsertionSort_scan.simps) simp
  next
    case True
    have il: "i < length data" "i - 1 < length data" using True less.prems by simp_all
    have l: "Less data i (i - 1) = Some (lt (?K ! i) (?K ! (i - 1)))"
      using keyed_Less [OF kd il] .
    show ?thesis
    proof (cases "lt (?K ! i) (?K ! (i - 1))")
      case lt: True
      then have "?K ! i \<le> ?K ! (i - 1)" using cp by (rule compat_lt [rotated])
      with True l lt less.prems show ?thesis
        by (subst partialInsertionSort_scan.simps) simp
    next
      case False
      then have le: "?K ! (i - 1) \<le> ?K ! i" using cp by (rule compat_not_lt [rotated])
      have so: "sortedIn a (i + 1) ?K"
      proof (rule sortedInI)
        fix k l assume kl: "a \<le> k" "k \<le> l" "l < i + 1"
        show "?K ! k \<le> ?K ! l"
        proof (cases "l < i")
          case True
          then show ?thesis using less.prems(4) kl by (simp add: sortedIn_def)
        next
          case False
          with kl have li: "l = i" by simp
          show ?thesis
          proof (cases "k = i")
            case True
            with li show ?thesis by simp
          next
            case False
            with kl li have "k \<le> i - 1" "i - 1 < i" using less.prems(1) by simp_all
            then have "?K ! k \<le> ?K ! (i - 1)"
              using less.prems(4) kl(1) by (simp add: sortedIn_def)
            with le li show ?thesis by simp
          qed
        qed
      qed
      have "b - (i + 1) < b - i" "a < i + 1" "i + 1 \<le> b" using True less.prems by simp_all
      from less.hyps [OF this less.prems(3) so] obtain i' where
        r: "partialInsertionSort_scan Less data (i + 1) b = Some i'" "i + 1 \<le> i'" "i' \<le> b"
          "sortedIn a i' ?K" "i' < b \<longrightarrow> ?K ! i' \<le> ?K ! (i' - 1)" by blast
      have "partialInsertionSort_scan Less data i b = Some i'"
        using True l False r(1) by (subst partialInsertionSort_scan.simps) simp
      with r show ?thesis by simp
    qed
  qed
qed

lemma sortedIn_step_outside:
  assumes "sortedIn a i (map key d)" and "step key i b d d'"
  shows "sortedIn a i (map key d')"
proof (rule sortedInI)
  fix k l assume kl: "a \<le> k" "k \<le> l" "l < i"
  have w: "within i b (map key d) (map key d')" using assms(2) by (simp add: step_def)
  have "map key d' ! k = map key d ! k" "map key d' ! l = map key d ! l"
    using within_outside [OF w] kl by simp_all
  then show "map key d' ! k \<le> map key d' ! l" using sortedInD [OF assms(1) kl] by simp
qed

lemma partialInsertionSort_round:
  assumes kd: "keyed key lt Less" and cp: "compat lt"
    and ai: "a < i" and ib: "i < b" and bl: "b \<le> length data"
    and so: "sortedIn a i (map key data)"
    and lb: "lbound a b (map key data)"
  shows "\<exists>d3. (do {
       data \<leftarrow> Swap data i (i - 1);
       data \<leftarrow> (if i - a \<ge> 2 then partialInsertionSort_shiftLeft Less data (i - 1)
                else Some data);
       (if b - i \<ge> 2 then partialInsertionSort_shiftRight Less data (i + 1) b
                else Some data)
     }) = Some d3 \<and> step key a b data d3 \<and> sortedIn a i (map key d3)"
proof -
  note nth_map [simp del]
  let ?K = "map key data"
  have il: "i < length data" "i - 1 < length data" using ib bl by simp_all
  have r: "a \<le> i" "i < b" "a \<le> i - 1" "i - 1 < b" using ai ib by simp_all
  from Swap_step [OF il r, of key] obtain d1 where
    sw: "Swap data i (i - 1) = Some d1" and st1: "step key a b data d1"
    and k1: "map key d1 = ?K[i := ?K ! (i - 1), i - 1 := ?K ! i]" by blast
  let ?K1 = "map key d1"
  have len1: "length d1 = length data" using st1 by (rule step_length)
  have lb1: "lbound a b ?K1" using lb st1 by (rule lbound_step)
  have so1: "sortedIn a (i - 1) ?K1"
  proof (rule sortedInI)
    fix k l assume kl: "a \<le> k" "k \<le> l" "l < i - 1"
    then have "?K1 ! k = ?K ! k" "?K1 ! l = ?K ! l" unfolding k1 by simp_all
    moreover have "?K ! k \<le> ?K ! l" using so kl by (simp add: sortedIn_def)
    ultimately show "?K1 ! k \<le> ?K1 ! l" by simp
  qed
  have "\<exists>d2. (if i - a \<ge> 2 then partialInsertionSort_shiftLeft Less d1 (i - 1)
                else Some d1) = Some d2 \<and> step key a b d1 d2 \<and> sortedIn a i (map key d2)"
  proof (cases "i - a \<ge> 2")
    case False
    with ai have "i \<le> Suc a" by simp
    then have "sortedIn a i ?K1" by (rule sortedIn_single)
    with False show ?thesis by (simp add: step_refl)
  next
    case True
    have p: "a \<le> i - 1" "i - 1 < length d1" using True il len1 by simp_all
    have lb1': "lbound a (Suc (i - 1)) ?K1" using lb1 ib ai by (auto intro: lbound_narrow)
    from partialInsertionSort_shiftLeft_correct [OF kd cp p so1 lb1'] obtain d2 where
      d2: "partialInsertionSort_shiftLeft Less d1 (i - 1) = Some d2"
        "step key a (Suc (i - 1)) d1 d2" "sortedIn a (Suc (i - 1)) (map key d2)" by blast
    have "step key a b d1 d2" using d2(2) ib ai by (auto intro: step_widen)
    moreover have "sortedIn a i (map key d2)" using d2(3) ai by simp
    ultimately show ?thesis using True d2(1) by simp
  qed
  then obtain d2 where d2: "(if i - a \<ge> 2 then partialInsertionSort_shiftLeft Less d1 (i - 1)
                else Some d1) = Some d2" "step key a b d1 d2" "sortedIn a i (map key d2)"
    by blast
  have len2: "length d2 = length data" using d2(2) len1 by (simp add: step_length)
  have "\<exists>d3. (if b - i \<ge> 2 then partialInsertionSort_shiftRight Less d2 (i + 1) b
                else Some d2) = Some d3 \<and> step key i b d2 d3"
  proof (cases "b - i \<ge> 2")
    case False
    then show ?thesis by (simp add: step_refl)
  next
    case True
    have "i < i + 1" "b \<le> length d2" using bl len2 by simp_all
    from partialInsertionSort_shiftRight_correct [OF kd this] True
    show ?thesis by simp
  qed
  then obtain d3 where d3: "(if b - i \<ge> 2 then partialInsertionSort_shiftRight Less d2 (i + 1) b
                else Some d2) = Some d3" "step key i b d2 d3" by blast
  have "step key a b d2 d3" using d3(2) ai by (auto intro: step_widen)
  with st1 d2(2) have "step key a b data d3" by (blast intro: step_trans)
  moreover have "sortedIn a i (map key d3)" using d2(3) d3(2) by (rule sortedIn_step_outside)
  ultimately show ?thesis using sw d2(1) d3(1) by simp
qed

lemma partialInsertionSort_steps_correct:
  assumes kd: "keyed key lt Less" and cp: "compat lt"
  shows "a < i \<Longrightarrow> i \<le> b \<Longrightarrow> b \<le> length data \<Longrightarrow> sortedIn a i (map key data) \<Longrightarrow>
    lbound a b (map key data) \<Longrightarrow>
    \<exists>d' r. partialInsertionSort_steps Less data a b i n = Some (d', r)
      \<and> step key a b data d' \<and> (r \<longrightarrow> sortedIn a b (map key d'))"
proof (induction n arbitrary: data i)
  case 0
  have "partialInsertionSort_steps Less data a b i 0 = Some (data, False)" by simp
  moreover have "step key a b data data" by (rule step_refl)
  ultimately show ?case by blast
next
  case (Suc n)
  from partialInsertionSort_scan_correct [OF kd cp Suc.prems(1-4)] obtain i' where
    sc: "partialInsertionSort_scan Less data i b = Some i'" "i \<le> i'" "i' \<le> b"
      "sortedIn a i' (map key data)" by blast
  show ?case
  proof (cases "i' = b")
    case True
    have "partialInsertionSort_steps Less data a b i (Suc n) = Some (data, True)"
      using sc(1) True by simp
    moreover have "step key a b data data" by (rule step_refl)
    ultimately show ?thesis using sc(4) True by blast
  next
    case nb: False
    show ?thesis
    proof (cases "b - a < 50")
      case True
      have "partialInsertionSort_steps Less data a b i (Suc n) = Some (data, False)"
        using sc(1) nb True by simp
      moreover have "step key a b data data" by (rule step_refl)
      ultimately show ?thesis by blast
    next
      case False
      have ai: "a < i'" "i' < b" using sc(2,3) Suc.prems(1) nb by simp_all
      from partialInsertionSort_round [OF kd cp ai Suc.prems(3) sc(4) Suc.prems(5)]
      obtain d3 where d3: "(do {
           data \<leftarrow> Swap data i' (i' - 1);
           data \<leftarrow> (if i' - a \<ge> 2 then partialInsertionSort_shiftLeft Less data (i' - 1)
                    else Some data);
           (if b - i' \<ge> 2 then partialInsertionSort_shiftRight Less data (i' + 1) b
                    else Some data)
         }) = Some d3" "step key a b data d3" "sortedIn a i' (map key d3)" by blast
      have len3: "length d3 = length data" using d3(2) by (rule step_length)
      have "i' \<le> b" "b \<le> length d3" using ai len3 Suc.prems(3) by simp_all
      moreover have "lbound a b (map key d3)" using Suc.prems(5) d3(2) by (rule lbound_step)
      ultimately obtain d' r where
        r: "partialInsertionSort_steps Less d3 a b i' n = Some (d', r)"
          "step key a b d3 d'" "r \<longrightarrow> sortedIn a b (map key d')"
        using Suc.IH [OF ai(1) _ _ d3(3)] by blast
      have "partialInsertionSort_steps Less data a b i (Suc n) = Some (d', r)"
        using sc(1) nb False d3(1) r(1) by (auto simp add: bind_eq_Some_conv)
      with r(3) step_trans [OF d3(2) r(2)] show ?thesis by blast
    qed
  qed
qed

lemma partialInsertionSort_func_correct:
  assumes kd: "keyed key lt Less" and cp: "compat lt"
    and "a < b" and "b \<le> length data" and "lbound a b (map key data)"
  shows "\<exists>d' r. partialInsertionSort_func Less data a b = Some (d', r)
      \<and> step key a b data d' \<and> (r \<longrightarrow> sortedIn a b (map key d'))"
  unfolding partialInsertionSort_func_def
proof (rule partialInsertionSort_steps_correct [OF kd cp])
  show "a < a + 1" by simp
  show "a + 1 \<le> b" using assms(3) by simp
  show "b \<le> length data" by fact
  show "sortedIn a (a + 1) (map key data)" by (rule sortedIn_single) simp
  show "lbound a b (map key data)" by fact
qed

subsection \<open>heapSort\<close>

lemma heapFromD:
  "heapFrom lo hi first ks \<Longrightarrow> lo \<le> r \<Longrightarrow> c < hi \<Longrightarrow> c = 2 * r + 1 \<or> c = 2 * r + 2 \<Longrightarrow>
   ks ! (first + c) \<le> ks ! (first + r)"
  unfolding heapFrom_def by blast

lemma siftDown_child:
  assumes kd: "keyed key lt Less" and cp: "compat lt"
    and "child < hi" and "first + hi \<le> length data"
  shows "\<exists>cs. (if child + 1 < hi then do {
                     lt \<leftarrow> Less data (first + child) (first + child + 1);
                     Some (if lt then child + 1 else child)
                   } else Some child) = Some cs
     \<and> (cs = child \<or> cs = child + 1) \<and> cs < hi
     \<and> (\<forall>c. c < hi \<and> (c = child \<or> c = child + 1)
          \<longrightarrow> map key data ! (first + c) \<le> map key data ! (first + cs))"
proof (cases "child + 1 < hi")
  case False
  with assms(3) show ?thesis by auto
next
  case True
  note nth_map [simp del]
  let ?K = "map key data"
  have l: "first + child < length data" "first + child + 1 < length data"
    using True assms(4) by simp_all
  have less: "Less data (first + child) (first + child + 1)
      = Some (lt (?K ! (first + child)) (?K ! (first + child + 1)))"
    using keyed_Less [OF kd l] .
  show ?thesis
  proof (cases "lt (?K ! (first + child)) (?K ! (first + child + 1))")
    case lt: True
    then have "?K ! (first + child) \<le> ?K ! (first + child + 1)"
      using cp by (rule compat_lt [rotated])
    then have "\<forall>c. c < hi \<and> (c = child \<or> c = child + 1)
          \<longrightarrow> ?K ! (first + c) \<le> ?K ! (first + (child + 1))"
      by (auto simp add: add.assoc)
    with True less lt show ?thesis by simp
  next
    case False
    then have "?K ! (first + child + 1) \<le> ?K ! (first + child)"
      using cp by (rule compat_not_lt [rotated])
    then have "\<forall>c. c < hi \<and> (c = child \<or> c = child + 1)
          \<longrightarrow> ?K ! (first + c) \<le> ?K ! (first + child)"
      by (auto simp add: add.assoc)
    with True less False assms(3) show ?thesis by simp
  qed
qed

lemma siftDown_func_correct:
  assumes kd: "keyed key lt Less" and cp: "compat lt"
  shows "lo \<le> root \<Longrightarrow> first + hi \<le> length data \<Longrightarrow>
    heapExcept lo root hi first (map key data) \<Longrightarrow>
    \<exists>d'. siftDown_func Less data root hi first = Some d'
      \<and> step key (first + lo) (first + hi) data d' \<and> heapFrom lo hi first (map key d')"
proof (induction "hi - root" arbitrary: root data rule: less_induct)
  case less
  note nth_map [simp del]
  let ?K = "map key data"
  have H1: "?K ! (first + c) \<le> ?K ! (first + r)"
    if "lo \<le> r" "r \<noteq> root" "c < hi" "c = 2 * r + 1 \<or> c = 2 * r + 2" for r c
    using less.prems(3) that unfolding heapExcept_def by blast
  have H2: "?K ! (first + c) \<le> ?K ! (first + p)"
    if "lo \<le> p" "root = 2 * p + 1 \<or> root = 2 * p + 2" "c < hi"
      "c = 2 * root + 1 \<or> c = 2 * root + 2" for p c
    using less.prems(3) that unfolding heapExcept_def by blast
  show ?case
  proof (cases "2 * root + 1 \<ge> hi")
    case True
    have "heapFrom lo hi first ?K"
      unfolding heapFrom_def
    proof (intro allI impI)
      fix r c assume rc: "lo \<le> r \<and> c < hi \<and> (c = 2 * r + 1 \<or> c = 2 * r + 2)"
      then have "r \<noteq> root" using True by auto
      with rc show "?K ! (first + c) \<le> ?K ! (first + r)" using H1 by blast
    qed
    moreover have "siftDown_func Less data root hi first = Some data"
      using True by (subst siftDown_func.simps) (simp add: Let_def)
    ultimately show ?thesis using step_refl by blast
  next
    case False
    then have ch: "2 * root + 1 < hi" by simp
    from siftDown_child [OF kd cp ch less.prems(2)] obtain cs where
      cs: "(if 2 * root + 1 + 1 < hi then do {
                     lt \<leftarrow> Less data (first + (2 * root + 1)) (first + (2 * root + 1) + 1);
                     Some (if lt then 2 * root + 1 + 1 else 2 * root + 1)
                   } else Some (2 * root + 1)) = Some cs"
      and cs2: "cs = 2 * root + 1 \<or> cs = 2 * root + 1 + 1" and csh: "cs < hi"
      and cmax: "\<forall>c. c < hi \<and> (c = 2 * root + 1 \<or> c = 2 * root + 1 + 1)
          \<longrightarrow> ?K ! (first + c) \<le> ?K ! (first + cs)" by blast
    have rl: "first + root < length data" "first + cs < length data"
      using ch csh less.prems(2) by simp_all
    have lessr: "Less data (first + root) (first + cs)
        = Some (lt (?K ! (first + root)) (?K ! (first + cs)))"
      using keyed_Less [OF kd rl] .
    have unfold: "siftDown_func Less data root hi first =
        (if \<not> lt (?K ! (first + root)) (?K ! (first + cs)) then Some data
         else do {
           data' \<leftarrow> Swap data (first + root) (first + cs);
           siftDown_func Less data' cs hi first
         })"
      by (subst siftDown_func.simps)
        (simp only: Let_def False if_False cs Option.bind.simps lessr)
    show ?thesis
    proof (cases "lt (?K ! (first + root)) (?K ! (first + cs))")
      case nlt: False
      then have le: "?K ! (first + cs) \<le> ?K ! (first + root)"
        using cp by (rule compat_not_lt [rotated])
      have "heapFrom lo hi first ?K"
        unfolding heapFrom_def
      proof (intro allI impI)
        fix r c assume rc: "lo \<le> r \<and> c < hi \<and> (c = 2 * r + 1 \<or> c = 2 * r + 2)"
        show "?K ! (first + c) \<le> ?K ! (first + r)"
        proof (cases "r = root")
          case False
          with rc show ?thesis using H1 by blast
        next
          case True
          with rc have "c < hi \<and> (c = 2 * root + 1 \<or> c = 2 * root + 1 + 1)" by auto
          with cmax have "?K ! (first + c) \<le> ?K ! (first + cs)" by blast
          with le True show ?thesis by simp
        qed
      qed
      with unfold nlt show ?thesis using step_refl by auto
    next
      case islt: True
      then have le: "?K ! (first + root) \<le> ?K ! (first + cs)"
        using cp by (rule compat_lt [rotated])
      have range: "first + lo \<le> first + root" "first + root < first + hi"
        "first + lo \<le> first + cs" "first + cs < first + hi"
        using less.prems(1) ch csh cs2 by auto
      from Swap_step [OF rl range, of key] obtain d1 where
        sw: "Swap data (first + root) (first + cs) = Some d1"
        and st: "step key (first + lo) (first + hi) data d1"
        and k1: "map key d1 = ?K[first + root := ?K ! (first + cs),
                   first + cs := ?K ! (first + root)]" by blast
      let ?K1 = "map key d1"
      have len1: "length d1 = length data" using st by (rule step_length)
      have n1: "?K1 ! (first + k) = (if k = cs then ?K ! (first + root)
          else if k = root then ?K ! (first + cs) else ?K ! (first + k))"
        if "k < hi" for k
        using that rl less.prems(2) unfolding k1 by (simp add: nth_list_update)
      have he: "heapExcept lo cs hi first ?K1"
        unfolding heapExcept_def
      proof (intro conjI allI impI)
        fix r c assume rc: "lo \<le> r \<and> r \<noteq> cs \<and> c < hi \<and> (c = 2 * r + 1 \<or> c = 2 * r + 2)"
        then have rh: "r < hi" "c < hi" by auto
        show "?K1 ! (first + c) \<le> ?K1 ! (first + r)"
        proof (cases "r = root")
          case True
          with rc have "c < hi \<and> (c = 2 * root + 1 \<or> c = 2 * root + 1 + 1)" by auto
          with cmax have c1: "?K ! (first + c) \<le> ?K ! (first + cs)" by blast
          have cr: "c \<noteq> root" using rc True by auto
          show ?thesis
          proof (cases "c = cs")
            case True
            with \<open>r = root\<close> n1 [OF rh(1)] n1 [OF rh(2)] le cr show ?thesis by simp
          next
            case False
            with \<open>r = root\<close> n1 [OF rh(1)] n1 [OF rh(2)] c1 cr rc show ?thesis by simp
          qed
        next
          case False
          have ccs: "c \<noteq> cs" using rc False cs2 by arith
          have r1: "?K1 ! (first + r) = ?K ! (first + r)" using n1 [OF rh(1)] False rc by simp
          show ?thesis
          proof (cases "c = root")
            case True
            have "?K ! (first + cs) \<le> ?K ! (first + r)"
            proof (rule H2)
              show "lo \<le> r" using rc by simp
              show "root = 2 * r + 1 \<or> root = 2 * r + 2" using rc True by simp
              show "cs < hi" by (rule csh)
              show "cs = 2 * root + 1 \<or> cs = 2 * root + 2" using cs2 by simp
            qed
            with True n1 [OF rh(2)] ccs r1 show ?thesis by simp
          next
            case cnr: False
            have "?K ! (first + c) \<le> ?K ! (first + r)"
            proof (rule H1)
              show "lo \<le> r" using rc by simp
              show "r \<noteq> root" by (rule False)
              show "c < hi" by (rule rh(2))
              show "c = 2 * r + 1 \<or> c = 2 * r + 2" using rc by simp
            qed
            with cnr n1 [OF rh(2)] ccs r1 show ?thesis by simp
          qed
        qed
      next
        fix p c assume pc: "lo \<le> p \<and> (cs = 2 * p + 1 \<or> cs = 2 * p + 2) \<and> c < hi
          \<and> (c = 2 * cs + 1 \<or> c = 2 * cs + 2)"
        then have pr: "p = root" using cs2 by arith
        have ch': "c < hi" "c \<noteq> cs" "c \<noteq> root" using pc cs2 by auto
        have "?K ! (first + c) \<le> ?K ! (first + cs)"
        proof (rule H1)
          show "lo \<le> cs" using less.prems(1) cs2 by auto
          show "cs \<noteq> root" using cs2 by auto
          show "c < hi" by (rule ch'(1))
          show "c = 2 * cs + 1 \<or> c = 2 * cs + 2" using pc by simp
        qed
        moreover have "root < hi" using ch by simp
        ultimately show "?K1 ! (first + c) \<le> ?K1 ! (first + p)"
          using n1 [OF ch'(1)] n1 [of root] ch' pr cs2 by auto
      qed
      have m: "hi - cs < hi - root" using cs2 csh by auto
      have "lo \<le> cs" using less.prems(1) cs2 by auto
      moreover have "first + hi \<le> length d1" using less.prems(2) len1 by simp
      ultimately obtain d' where
        r: "siftDown_func Less d1 cs hi first = Some d'"
          "step key (first + lo) (first + hi) d1 d'" "heapFrom lo hi first (map key d')"
        using less.hyps [OF m _ _ he] by blast
      have "siftDown_func Less data root hi first = Some d'"
        using unfold islt sw r(1) by simp
      with r(3) step_trans [OF st r(2)] show ?thesis by blast
    qed
  qed
qed

lemma heapSort_build_correct:
  assumes kd: "keyed key lt Less" and cp: "compat lt"
  shows "first + hi \<le> length data \<Longrightarrow> heapFrom i hi first (map key data) \<Longrightarrow>
    \<exists>d'. heapSort_build Less data i hi first = Some d'
      \<and> step key first (first + hi) data d' \<and> heapFrom 0 hi first (map key d')"
proof (induction i arbitrary: data)
  case 0
  then show ?case using step_refl by auto
next
  case (Suc i)
  have he: "heapExcept i i hi first (map key data)"
    unfolding heapExcept_def
  proof (intro conjI allI impI)
    fix r c assume rc: "i \<le> r \<and> r \<noteq> i \<and> c < hi \<and> (c = 2 * r + 1 \<or> c = 2 * r + 2)"
    then have "Suc i \<le> r" by simp
    with rc show "map key data ! (first + c) \<le> map key data ! (first + r)"
      using heapFromD [OF Suc.prems(2)] by blast
  next
    fix p c assume "i \<le> p \<and> (i = 2 * p + 1 \<or> i = 2 * p + 2) \<and> c < hi
      \<and> (c = 2 * i + 1 \<or> c = 2 * i + 2)"
    then have False by arith
    then show "map key data ! (first + c) \<le> map key data ! (first + p)" ..
  qed
  from siftDown_func_correct [OF kd cp _ Suc.prems(1) he] obtain d1 where
    d1: "siftDown_func Less data i hi first = Some d1"
      "step key (first + i) (first + hi) data d1" "heapFrom i hi first (map key d1)" by auto
  have len1: "length d1 = length data" using d1(2) by (rule step_length)
  have "first + hi \<le> length d1" using Suc.prems(1) len1 by simp
  from Suc.IH [OF this d1(3)] obtain d' where
    r: "heapSort_build Less d1 i hi first = Some d'" "step key first (first + hi) d1 d'"
      "heapFrom 0 hi first (map key d')" by blast
  have "step key first (first + hi) data d1" using d1(2) by (rule step_widen) simp_all
  then have "step key first (first + hi) data d'" using r(2) by (rule step_trans)
  moreover have "heapSort_build Less data (Suc i) hi first = Some d'" using d1(1) r(1) by simp
  ultimately show ?case using r(3) by blast
qed

lemma heap_root_max:
  assumes "heapFrom 0 hi first ks"
  shows "k < hi \<Longrightarrow> ks ! (first + k) \<le> ks ! (first + 0)"
proof (induction k rule: less_induct)
  case (less k)
  show ?case
  proof (cases "k = 0")
    case True
    then show ?thesis by simp
  next
    case False
    define p where "p = (k - 1) div 2"
    have pk: "k = 2 * p + 1 \<or> k = 2 * p + 2" using False unfolding p_def by arith
    then have plt: "p < k" by arith
    then have "p < hi" using less.prems by simp
    from less.IH [OF plt this] have "ks ! (first + p) \<le> ks ! (first + 0)" .
    moreover have "ks ! (first + k) \<le> ks ! (first + p)"
      using heapFromD [OF assms _ less.prems pk] by simp
    ultimately show ?thesis by simp
  qed
qed

lemma heapSort_pop_correct:
  assumes kd: "keyed key lt Less" and cp: "compat lt"
  shows "first + m \<le> length data \<Longrightarrow> heapFrom 0 m first (map key data) \<Longrightarrow>
    sortedIn (first + m) b (map key data) \<Longrightarrow>
    (\<forall>k l. k < m \<and> first + m \<le> l \<and> l < b
       \<longrightarrow> map key data ! (first + k) \<le> map key data ! l) \<Longrightarrow>
    \<exists>d'. heapSort_pop Less data m 0 first = Some d'
      \<and> step key first (first + m) data d' \<and> sortedIn first b (map key d')"
proof (induction m arbitrary: data)
  case 0
  then show ?case using step_refl by auto
next
  case (Suc i)
  note nth_map [simp del]
  let ?K = "map key data"
  have cross: "?K ! (first + k) \<le> ?K ! l" if "k < Suc i" "first + Suc i \<le> l" "l < b" for k l
    using Suc.prems(4) that by blast
  have il: "first < length data" "first + i < length data" using Suc.prems(1) by simp_all
  have range: "first \<le> first" "first < first + Suc i" "first \<le> first + i"
    "first + i < first + Suc i" by simp_all
  from Swap_step [OF il range, of key] obtain d1 where
    sw: "Swap data first (first + i) = Some d1"
    and st1: "step key first (first + Suc i) data d1"
    and k1: "map key d1 = ?K[first := ?K ! (first + i), first + i := ?K ! first]" by blast
  let ?K1 = "map key d1"
  have len1: "length d1 = length data" using st1 by (rule step_length)
  have n1: "?K1 ! k = (if k = first + i then ?K ! first
      else if k = first then ?K ! (first + i) else ?K ! k)" if "k < length data" for k
    using that il unfolding k1 by (simp add: nth_list_update)
  have he: "heapExcept 0 0 i first ?K1"
    unfolding heapExcept_def
  proof (intro conjI allI impI)
    fix r c assume rc: "0 \<le> r \<and> r \<noteq> 0 \<and> c < i \<and> (c = 2 * r + 1 \<or> c = 2 * r + 2)"
    then have "r < i" "r \<noteq> 0" "c \<noteq> 0" "c < i" by auto
    then have "?K1 ! (first + c) = ?K ! (first + c)" "?K1 ! (first + r) = ?K ! (first + r)"
      using n1 [of "first + c"] n1 [of "first + r"] il by simp_all
    moreover have "?K ! (first + c) \<le> ?K ! (first + r)"
      using heapFromD [OF Suc.prems(2), of r c] rc by simp
    ultimately show "?K1 ! (first + c) \<le> ?K1 ! (first + r)" by simp
  next
    fix p :: nat and c assume "0 \<le> p \<and> (0 = 2 * p + 1 \<or> 0 = 2 * p + 2) \<and> c < i
      \<and> (c = 2 * 0 + 1 \<or> c = 2 * 0 + 2)"
    then have False by arith
    then show "?K1 ! (first + c) \<le> ?K1 ! (first + p)" ..
  qed
  have fl: "first + i \<le> length d1" using il len1 by simp
  from siftDown_func_correct [OF kd cp _ fl he] obtain d2 where
    d2: "siftDown_func Less d1 0 i first = Some d2"
      "step key (first + 0) (first + i) d1 d2" "heapFrom 0 i first (map key d2)" by auto
  let ?K2 = "map key d2"
  have len2: "length d2 = length data" using d2(2) len1 by (simp add: step_length)
  have w2: "within first (first + i) ?K1 ?K2" using d2(2) by (simp add: step_def)
  have root: "?K ! (first + k) \<le> ?K ! first" if "k < Suc i" for k
    using heap_root_max [OF Suc.prems(2) that] by simp
  have out2: "?K2 ! l = (if l = first + i then ?K ! first else ?K ! l)"
    if "first + i \<le> l" "l < length data" for l
    using within_outside [OF w2, of l] n1 [OF that(2)] that(1) by auto
  have in2: "\<exists>k'. k' < Suc i \<and> ?K2 ! (first + k) = ?K ! (first + k')" if "k < i" for k
  proof -
    from within_inside [OF w2, of "first + k"] that obtain q where
      q: "first \<le> q" "q < first + i" "?K2 ! (first + k) = ?K1 ! q" by auto
    have "q < length data" using q(2) il by simp
    from n1 [OF this] q have "?K2 ! (first + k) = (if q = first then ?K ! (first + i) else ?K ! q)"
      by simp
    then show ?thesis
    proof (cases "q = first")
      case True
      with \<open>?K2 ! (first + k) = (if q = first then ?K ! (first + i) else ?K ! q)\<close>
      show ?thesis by (intro exI [of _ i]) simp
    next
      case False
      with \<open>?K2 ! (first + k) = (if q = first then ?K ! (first + i) else ?K ! q)\<close> q
      show ?thesis by (intro exI [of _ "q - first"]) auto
    qed
  qed
  have p1: "first + i \<le> length d2" using il len2 by simp
  have p3: "sortedIn (first + i) b ?K2"
  proof (rule sortedInI)
    fix k l assume kl: "first + i \<le> k" "k \<le> l" "l < b"
    show "?K2 ! k \<le> ?K2 ! l"
    proof (cases "k = l")
      case True
      then show ?thesis by simp
    next
      case False
      show ?thesis
      proof (cases "l < length data")
        case ll: True
        then have kk: "k < length data" using kl by simp
        have o: "?K2 ! l = ?K ! l" using out2 [OF _ ll] kl False by simp
        show ?thesis
        proof (cases "k = first + i")
          case True
          have "?K ! (first + 0) \<le> ?K ! l"
            using cross [of 0 l] kl False True by simp
          with True out2 [OF _ kk] o show ?thesis by simp
        next
          case nk: False
          have "?K ! k \<le> ?K ! l" using sortedInD [OF Suc.prems(3), of k l] kl nk by simp
          with nk out2 [OF kl(1) kk] o show ?thesis by simp
        qed
      next
        case nl: False
        have wl: "?K2 ! l = ?K ! l"
          using within_outside [OF w2, of l] st1 within_outside [of first "first + Suc i" ?K ?K1 l]
            nl il by (simp add: step_def)
        show ?thesis
        proof (cases "k = first + i")
          case True
          have "?K ! (first + 0) \<le> ?K ! l"
            using cross [of 0 l] kl False True by simp
          moreover have "?K2 ! k = ?K ! first" using out2 [of k] True il by simp
          ultimately show ?thesis using wl by simp
        next
          case nk: False
          have "?K2 ! k = ?K ! k"
            using within_outside [OF w2, of k]
              st1 within_outside [of first "first + Suc i" ?K ?K1 k] kl nk
            by (simp add: step_def)
          moreover have "?K ! k \<le> ?K ! l" using sortedInD [OF Suc.prems(3), of k l] kl nk by simp
          ultimately show ?thesis using wl by simp
        qed
      qed
    qed
  qed
  have p4: "\<forall>k l. k < i \<and> first + i \<le> l \<and> l < b \<longrightarrow> ?K2 ! (first + k) \<le> ?K2 ! l"
  proof (intro allI impI)
    fix k l assume kl: "k < i \<and> first + i \<le> l \<and> l < b"
    from in2 [of k] kl obtain k' where k': "k' < Suc i" "?K2 ! (first + k) = ?K ! (first + k')"
      by blast
    show "?K2 ! (first + k) \<le> ?K2 ! l"
    proof (cases "l = first + i")
      case True
      then have "?K2 ! l = ?K ! first" using out2 [of l] il by simp
      with root [OF k'(1)] k'(2) show ?thesis by simp
    next
      case False
      have "?K2 ! l = ?K ! l"
        using within_outside [OF w2, of l]
          st1 within_outside [of first "first + Suc i" ?K ?K1 l] kl False
        by (simp add: step_def)
      moreover have "?K ! (first + k') \<le> ?K ! l" using cross [OF k'(1), of l] kl False by simp
      ultimately show ?thesis using k'(2) by simp
    qed
  qed
  from Suc.IH [OF p1 d2(3) p3 p4] obtain d' where
    r: "heapSort_pop Less d2 i 0 first = Some d'" "step key first (first + i) d2 d'"
      "sortedIn first b (map key d')" by blast
  have "step key first (first + Suc i) d1 d2" using d2(2) by (rule step_widen) simp_all
  moreover have "step key first (first + Suc i) d2 d'" using r(2) by (rule step_widen) simp_all
  ultimately have "step key first (first + Suc i) data d'" using st1 by (blast intro: step_trans)
  moreover have "heapSort_pop Less data (Suc i) 0 first = Some d'" using sw d2(1) r(1) by simp
  ultimately show ?case using r(3) by blast
qed

lemma heapSort_func_correct:
  assumes kd: "keyed key lt Less" and cp: "compat lt"
    and ab: "a \<le> b" and bl: "b \<le> length data"
  shows "\<exists>d'. heapSort_func Less data a b = Some d' \<and> step key a b data d'
    \<and> sortedIn a b (map key d')"
proof -
  define hi where "hi = b - a"
  have b: "b = a + hi" using ab by (simp add: hi_def)
  have l: "a + hi \<le> length data" using bl b by simp
  have "heapFrom (Suc ((hi - 1) div 2)) hi a (map key data)"
    unfolding heapFrom_def
  proof (intro allI impI)
    fix r c assume "Suc ((hi - 1) div 2) \<le> r \<and> c < hi \<and> (c = 2 * r + 1 \<or> c = 2 * r + 2)"
    then have False by arith
    then show "map key data ! (a + c) \<le> map key data ! (a + r)" ..
  qed
  from heapSort_build_correct [OF kd cp l this] obtain d1 where
    d1: "heapSort_build Less data (Suc ((hi - 1) div 2)) hi a = Some d1"
      "step key a (a + hi) data d1" "heapFrom 0 hi a (map key d1)" by blast
  have len1: "length d1 = length data" using d1(2) by (rule step_length)
  have l1: "a + hi \<le> length d1" using l len1 by simp
  have s1: "sortedIn (a + hi) b (map key d1)" unfolding b by (rule sortedIn_single) simp
  have c1: "\<forall>k l. k < hi \<and> a + hi \<le> l \<and> l < b
       \<longrightarrow> map key d1 ! (a + k) \<le> map key d1 ! l" unfolding b by auto
  from heapSort_pop_correct [OF kd cp l1 d1(3) s1 c1] obtain d' where
    r: "heapSort_pop Less d1 hi 0 a = Some d'" "step key a (a + hi) d1 d'"
      "sortedIn a b (map key d')" by blast
  have "heapSort_func Less data a b = Some d'"
    using d1(1) r(1) unfolding heapSort_func_def Let_def hi_def [symmetric] by simp
  moreover have "step key a b data d'" using step_trans [OF d1(2) r(2)] b by simp
  ultimately show ?thesis using r(3) by blast
qed

subsection \<open>pdqsort\<close>

lemma parted_within_left:
  assumes "parted a mid b ks" and "within a mid ks ks'"
  shows "parted a mid b ks'"
  unfolding parted_def
proof (intro conjI allI impI)
  have m: "ks' ! mid = ks ! mid" using within_outside [OF assms(2), of mid] by simp
  {
    fix k assume k: "a \<le> k \<and> k < mid"
    with within_inside [OF assms(2), of k] obtain k' where
      "a \<le> k'" "k' < mid" "ks' ! k = ks ! k'" by blast
    then show "ks' ! k \<le> ks' ! mid" using assms(1) m unfolding parted_def by simp
  next
    fix k assume k: "mid < k \<and> k < b"
    then have "ks' ! k = ks ! k" using within_outside [OF assms(2), of k] by simp
    then show "ks' ! mid \<le> ks' ! k" using assms(1) m k unfolding parted_def by simp
  }
qed

lemma parted_within_right:
  assumes "parted a mid b ks" and "within (mid + 1) b ks ks'"
  shows "parted a mid b ks'"
  unfolding parted_def
proof (intro conjI allI impI)
  have m: "ks' ! mid = ks ! mid" using within_outside [OF assms(2), of mid] by simp
  {
    fix k assume k: "a \<le> k \<and> k < mid"
    then have "ks' ! k = ks ! k" using within_outside [OF assms(2), of k] by simp
    then show "ks' ! k \<le> ks' ! mid" using assms(1) m k unfolding parted_def by simp
  next
    fix k assume k: "mid < k \<and> k < b"
    with within_inside [OF assms(2), of k] obtain k' where
      "mid + 1 \<le> k'" "k' < b" "ks' ! k = ks ! k'" by auto
    then show "ks' ! mid \<le> ks' ! k" using assms(1) m unfolding parted_def by simp
  }
qed

lemma parted_sorted:
  assumes p: "parted a mid b ks" and l: "sortedIn a mid ks" and r: "sortedIn (mid + 1) b ks"
  shows "sortedIn a b ks"
proof (rule sortedInI)
  fix k l' assume kl: "a \<le> k" "k \<le> l'" "l' < b"
  have L: "ks ! x \<le> ks ! mid" if "a \<le> x" "x < mid" for x
    using p that unfolding parted_def by simp
  have R: "ks ! mid \<le> ks ! x" if "mid < x" "x < b" for x
    using p that unfolding parted_def by simp
  consider "l' < mid" | "mid < k" | "k = mid" "l' = mid" | "k = mid" "mid < l'"
    | "k < mid" "l' = mid" | "k < mid" "mid < l'"
    using kl by arith
  then show "ks ! k \<le> ks ! l'"
  proof cases
    case 1
    then show ?thesis using sortedInD [OF l kl(1,2)] by simp
  next
    case 2
    then show ?thesis using sortedInD [OF r _ kl(2,3)] by simp
  next
    case 3
    then show ?thesis by simp
  next
    case 4
    then show ?thesis using R [of l'] kl by simp
  next
    case 5
    then show ?thesis using L [of k] kl by simp
  next
    case 6
    then have "ks ! k \<le> ks ! mid" "ks ! mid \<le> ks ! l'" using L [of k] R [of l'] kl by simp_all
    then show ?thesis by simp
  qed
qed

lemma sortedIn_within_disjoint:
  assumes "sortedIn a b ks" and "within c d ks ks'" and "d \<le> a \<or> b \<le> c"
  shows "sortedIn a b ks'"
proof (rule sortedInI)
  fix k l assume kl: "a \<le> k" "k \<le> l" "l < b"
  have "ks' ! k = ks ! k" "ks' ! l = ks ! l"
    using within_outside [OF assms(2)] kl assms(3) by auto
  then show "ks' ! k \<le> ks' ! l" using sortedInD [OF assms(1) kl] by simp
qed

lemma lbound_parted:
  assumes "lbound a b ks" and "parted a mid b ks" and "a \<le> mid"
  shows "lbound (mid + 1) b ks"
  unfolding lbound_def
proof (intro allI impI)
  fix p r assume pr: "p < mid + 1 \<and> mid + 1 \<le> r \<and> r < b"
  have R: "ks ! mid \<le> ks ! r" using assms(2) pr unfolding parted_def by simp
  consider "p < a" | "a \<le> p" "p < mid" | "p = mid" using pr by arith
  then show "ks ! p \<le> ks ! r"
  proof cases
    case 1
    then show ?thesis using lboundD [OF assms(1), of p r] pr assms(3) by simp
  next
    case 2
    then have "ks ! p \<le> ks ! mid" using assms(2) unfolding parted_def by simp
    with R show ?thesis by simp
  next
    case 3
    with R show ?thesis by simp
  qed
qed

lemma lbound_equal:
  assumes "lbound a b ks" and "a \<le> mid"
    and "\<forall>k l. a \<le> k \<and> k < mid \<and> a \<le> l \<and> l < b \<longrightarrow> ks ! k \<le> ks ! l"
  shows "lbound mid b ks"
  unfolding lbound_def
proof (intro allI impI)
  fix p r assume pr: "p < mid \<and> mid \<le> r \<and> r < b"
  show "ks ! p \<le> ks ! r"
  proof (cases "p < a")
    case True
    then show ?thesis using lboundD [OF assms(1), of p r] pr assms(2) by simp
  next
    case False
    then show ?thesis using assms(3) pr assms(2) by simp
  qed
qed

lemma equal_sorted:
  assumes e: "\<forall>k l. a \<le> k \<and> k < mid \<and> a \<le> l \<and> l < b \<longrightarrow> ks ! k \<le> ks ! l"
    and w: "within mid b ks ks'" and s: "sortedIn mid b ks'" and "a \<le> mid"
  shows "sortedIn a b ks'"
proof (rule sortedInI)
  fix k l assume kl: "a \<le> k" "k \<le> l" "l < b"
  show "ks' ! k \<le> ks' ! l"
  proof (cases "mid \<le> k")
    case True
    then show ?thesis using sortedInD [OF s _ kl(2,3)] by simp
  next
    case False
    then have k: "ks' ! k = ks ! k" using within_outside [OF w, of k] by simp
    show ?thesis
    proof (cases "l < mid")
      case True
      then have "ks' ! l = ks ! l" using within_outside [OF w, of l] by simp
      with k e kl False show ?thesis by simp
    next
      case nl: False
      with within_inside [OF w, of l] kl obtain l' where
        "mid \<le> l'" "l' < b" "ks' ! l = ks ! l'" by auto
      with k e kl False assms(4) show ?thesis by simp
    qed
  qed
qed

lemma pdqsort_loop_correct:
  assumes kd: "keyed key lt Less" and cp: "compat lt"
  shows "a \<le> b \<Longrightarrow> b \<le> length data \<Longrightarrow> lbound a b (map key data) \<Longrightarrow>
    \<exists>d'. pdqsort_loop Less data a b limit wasBalanced wasPartitioned = Some d'
      \<and> step key a b data d' \<and> sortedIn a b (map key d')"
proof (induction "b - a" arbitrary: a b data limit wasBalanced wasPartitioned rule: less_induct)
  case less
  note nth_map [simp del]
  show ?case
  proof (cases "b - a \<le> 12")
    case True
    from insertionSort_func_correct [OF kd cp less.prems(1,2)] True
    show ?thesis by (subst pdqsort_loop.simps) (simp add: Let_def)
  next
    case big: False
    show ?thesis
    proof (cases "limit = 0")
      case True
      from heapSort_func_correct [OF kd cp less.prems(1,2)] True big
      show ?thesis by (subst pdqsort_loop.simps) (simp add: Let_def)
    next
      case lim: False
      have ab: "a < b" using big by simp
      have "\<exists>d1 lim1. (if \<not> wasBalanced then do {
             data \<leftarrow> breakPatterns_func data a b;
             Some (data, limit - 1)
           } else Some (data, limit)) = Some (d1, lim1) \<and> step key a b data d1"
      proof (cases wasBalanced)
        case True
        then show ?thesis by (simp add: step_refl)
      next
        case False
        from breakPatterns_func_correct [OF less.prems(1,2), of key] False
        show ?thesis by auto
      qed
      then obtain d1 lim1 where
        e1: "(if \<not> wasBalanced then do {
             data \<leftarrow> breakPatterns_func data a b;
             Some (data, limit - 1)
           } else Some (data, limit)) = Some (d1, lim1)"
        and st1: "step key a b data d1" by blast
      have len1: "length d1 = length data" using st1 by (rule step_length)
      have bl1: "b \<le> length d1" using less.prems(2) len1 by simp
      have "8 \<le> b - a" using big by simp
      from choosePivot_func_correct [OF kd bl1 this] obtain pivot hint where
        e2: "choosePivot_func Less d1 a b = Some (pivot, hint)"
        and pv: "a \<le> pivot" "pivot < b" by blast
      have "\<exists>d2 pivot2 hint2. (if hint = decreasingHint then do {
             data \<leftarrow> reverseRange_func d1 a b;
             Some (data, (b - 1) - (pivot - a), increasingHint)
           } else Some (d1, pivot, hint)) = Some (d2, pivot2, hint2)
           \<and> step key a b d1 d2 \<and> a \<le> pivot2 \<and> pivot2 < b"
      proof (cases "hint = decreasingHint")
        case False
        then show ?thesis using pv by (simp add: step_refl)
      next
        case True
        have "a \<le> (b - 1) - (pivot - a)" "(b - 1) - (pivot - a) < b" using pv by arith+
        with reverseRange_func_correct [OF bl1, of a key] True
        show ?thesis by auto
      qed
      then obtain d2 pivot2 hint2 where
        e3: "(if hint = decreasingHint then do {
             data \<leftarrow> reverseRange_func d1 a b;
             Some (data, (b - 1) - (pivot - a), increasingHint)
           } else Some (d1, pivot, hint)) = Some (d2, pivot2, hint2)"
        and st2: "step key a b d1 d2" and pv2: "a \<le> pivot2" "pivot2 < b" by blast
      have st02: "step key a b data d2" using st1 st2 by (rule step_trans)
      have len2: "length d2 = length data" using st02 by (rule step_length)
      have bl2: "b \<le> length d2" using less.prems(2) len2 by simp
      have lb2: "lbound a b (map key d2)" using less.prems(3) st02 by (rule lbound_step)
      have "\<exists>d3 isSorted. (if wasBalanced \<and> wasPartitioned \<and> hint2 = increasingHint
           then partialInsertionSort_func Less d2 a b
           else Some (d2, False)) = Some (d3, isSorted)
           \<and> step key a b d2 d3 \<and> (isSorted \<longrightarrow> sortedIn a b (map key d3))"
      proof (cases "wasBalanced \<and> wasPartitioned \<and> hint2 = increasingHint")
        case False
        then show ?thesis by (auto simp add: step_refl)
      next
        case True
        from partialInsertionSort_func_correct [OF kd cp ab bl2 lb2] True
        show ?thesis by simp
      qed
      then obtain d3 isSorted where
        e4: "(if wasBalanced \<and> wasPartitioned \<and> hint2 = increasingHint
           then partialInsertionSort_func Less d2 a b
           else Some (d2, False)) = Some (d3, isSorted)"
        and st3: "step key a b d2 d3" and so3: "isSorted \<longrightarrow> sortedIn a b (map key d3)"
        by blast
      have st03: "step key a b data d3" using st02 st3 by (rule step_trans)
      have len3: "length d3 = length data" using st03 by (rule step_length)
      have bl3: "b \<le> length d3" using less.prems(2) len3 by simp
      have lb3: "lbound a b (map key d3)" using less.prems(3) st03 by (rule lbound_step)
      let ?K3 = "map key d3"
      have unfold: "pdqsort_loop Less data a b limit wasBalanced wasPartitioned =
        (if isSorted then Some d3
        else do {
          equal \<leftarrow> (if a > 0 then do {
                       lt \<leftarrow> Less d3 (a - 1) pivot2;
                       Some (\<not> lt)
                     } else Some False);
          if equal then do {
            (data, mid) \<leftarrow> partitionEqual_func Less d3 a b pivot2;
            pdqsort_loop Less data mid b lim1 wasBalanced wasPartitioned
          } else do {
            (data, mid, alreadyPartitioned) \<leftarrow> partition_func Less d3 a b pivot2;
            let leftLen = mid - a; rightLen = b - mid; balanceThreshold = (b - a) div 8 in
            if leftLen < rightLen then do {
              data \<leftarrow> pdqsort_loop Less data a mid lim1 True True;
              pdqsort_loop Less data (mid + 1) b lim1
                (leftLen \<ge> balanceThreshold) alreadyPartitioned
            } else do {
              data \<leftarrow> pdqsort_loop Less data (mid + 1) b lim1 True True;
              pdqsort_loop Less data a mid lim1
                (rightLen \<ge> balanceThreshold) alreadyPartitioned
            }
          }
        })"
        by (subst pdqsort_loop.simps)
          (simp only: Let_def big lim if_False e1 e2 e3 e4 Option.bind.simps prod.case)
      show ?thesis
      proof (cases isSorted)
        case True
        with unfold so3 st03 show ?thesis by simp
      next
        case ns: False
        have "\<exists>equal. (if a > 0 then do {
                       lt \<leftarrow> Less d3 (a - 1) pivot2;
                       Some (\<not> lt)
                     } else Some False) = Some equal
           \<and> (equal \<longrightarrow> 0 < a \<and> ?K3 ! pivot2 \<le> ?K3 ! (a - 1))"
        proof (cases "a > 0")
          case False
          then show ?thesis by auto
        next
          case True
          have "a - 1 < length d3" "pivot2 < length d3" using ab bl3 pv2 by simp_all
          from keyed_Less [OF kd this]
          have l: "Less d3 (a - 1) pivot2 = Some (lt (?K3 ! (a - 1)) (?K3 ! pivot2))" .
          have "\<not> lt (?K3 ! (a - 1)) (?K3 ! pivot2) \<longrightarrow> ?K3 ! pivot2 \<le> ?K3 ! (a - 1)"
            using cp by (simp add: compat_def)
          with True l show ?thesis by simp
        qed
        then obtain equal where
          e5: "(if a > 0 then do {
                       lt \<leftarrow> Less d3 (a - 1) pivot2;
                       Some (\<not> lt)
                     } else Some False) = Some equal"
          and eq: "equal \<longrightarrow> 0 < a \<and> ?K3 ! pivot2 \<le> ?K3 ! (a - 1)" by blast
        show ?thesis
        proof (cases equal)
          case True
          with eq have a0: "0 < a" and le: "?K3 ! pivot2 \<le> ?K3 ! (a - 1)" by simp_all
          have mn: "\<forall>k. a \<le> k \<and> k < b \<longrightarrow> ?K3 ! pivot2 \<le> ?K3 ! k"
          proof (intro allI impI)
            fix k assume "a \<le> k \<and> k < b"
            then have "?K3 ! (a - 1) \<le> ?K3 ! k" using lboundD [OF lb3, of "a - 1" k] a0 by simp
            with le show "?K3 ! pivot2 \<le> ?K3 ! k" by simp
          qed
          from partitionEqual_func_correct [OF kd cp ab bl3 pv2 mn] obtain d4 mid where
            e6: "partitionEqual_func Less d3 a b pivot2 = Some (d4, mid)"
            and st4: "step key a b d3 d4" and mid: "a < mid" "mid \<le> b"
            and pe: "\<forall>k l. a \<le> k \<and> k < mid \<and> a \<le> l \<and> l < b
               \<longrightarrow> map key d4 ! k \<le> map key d4 ! l" by blast
          have st04: "step key a b data d4" using st03 st4 by (rule step_trans)
          have len4: "length d4 = length data" using st04 by (rule step_length)
          have lb4: "lbound a b (map key d4)" using less.prems(3) st04 by (rule lbound_step)
          have lbm: "lbound mid b (map key d4)" using lb4 _ pe by (rule lbound_equal) (use mid in simp)
          have m: "b - mid < b - a" using mid ab by simp
          have "b \<le> length d4" using less.prems(2) len4 by simp
          from less.hyps [where limit = lim1 and wasBalanced = wasBalanced
              and wasPartitioned = wasPartitioned, OF m mid(2) this lbm] obtain d' where
            r: "pdqsort_loop Less d4 mid b lim1 wasBalanced wasPartitioned = Some d'"
              "step key mid b d4 d'" "sortedIn mid b (map key d')" by blast
          have "within mid b (map key d4) (map key d')" using r(2) by (simp add: step_def)
          with pe have "sortedIn a b (map key d')" using r(3)
            by (rule equal_sorted) (use mid in simp)
          moreover have "step key a b d4 d'" using r(2) by (rule step_widen) (use mid in simp_all)
          then have "step key a b data d'" using st04 by (blast intro: step_trans)
          moreover have "pdqsort_loop Less data a b limit wasBalanced wasPartitioned = Some d'"
            unfolding unfold using ns e5 True e6 r(1) by simp
          ultimately show ?thesis by blast
        next
          case ne: False
          from partition_func_correct [OF kd cp ab bl3 pv2] obtain d4 mid ap where
            e6: "partition_func Less d3 a b pivot2 = Some (d4, mid, ap)"
            and st4: "step key a b d3 d4" and mid: "a \<le> mid" "mid < b"
            and pl: "\<forall>k. a \<le> k \<and> k < mid \<longrightarrow> map key d4 ! k \<le> map key d4 ! mid"
            and pr: "\<forall>k. mid < k \<and> k < b \<longrightarrow> map key d4 ! mid \<le> map key d4 ! k" by blast
          have pt4: "parted a mid b (map key d4)" using pl pr by (simp add: parted_def)
          have st04: "step key a b data d4" using st03 st4 by (rule step_trans)
          have len4: "length d4 = length data" using st04 by (rule step_length)
          have lb4: "lbound a b (map key d4)" using less.prems(3) st04 by (rule lbound_step)
          have mL: "mid - a < b - a" using mid by simp
          have mR: "b - (mid + 1) < b - a" using mid by simp
          have rR: "mid + 1 \<le> b" using mid by simp
          show ?thesis
          proof (cases "mid - a < b - mid")
            case True
            have q1: "mid \<le> length d4" using less.prems(2) len4 mid by simp
            have q2: "lbound a mid (map key d4)"
              using lb4 by (rule lbound_narrow) (use mid in simp)
            from less.hyps [where limit = lim1 and wasBalanced = True
              and wasPartitioned = True, OF mL mid(1) q1 q2] obtain d5 where
              r5: "pdqsort_loop Less d4 a mid lim1 True True = Some d5"
                "step key a mid d4 d5" "sortedIn a mid (map key d5)" by blast
            have w5: "within a mid (map key d4) (map key d5)" using r5(2) by (simp add: step_def)
            have st45: "step key a b d4 d5" using r5(2) by (rule step_widen) (use mid in simp_all)
            have len5: "length d5 = length data" using st45 len4 by (simp add: step_length)
            have pt5: "parted a mid b (map key d5)" using pt4 w5 by (rule parted_within_left)
            have lb5: "lbound a b (map key d5)" using lb4 st45 by (rule lbound_step)
            have q3: "b \<le> length d5" using less.prems(2) len5 by simp
            have q4: "lbound (mid + 1) b (map key d5)"
              using lb5 pt5 mid(1) by (rule lbound_parted)
            from less.hyps [where limit = lim1 and wasBalanced = "(b - a) div 8 \<le> mid - a"
              and wasPartitioned = ap, OF mR rR q3 q4] obtain d6 where
              r6: "pdqsort_loop Less d5 (mid + 1) b lim1 ((b - a) div 8 \<le> mid - a) ap = Some d6"
                "step key (mid + 1) b d5 d6" "sortedIn (mid + 1) b (map key d6)" by blast
            have w6: "within (mid + 1) b (map key d5) (map key d6)"
              using r6(2) by (simp add: step_def)
            have "parted a mid b (map key d6)" using pt5 w6 by (rule parted_within_right)
            moreover have "sortedIn a mid (map key d6)"
              using r5(3) w6 by (rule sortedIn_within_disjoint) simp
            ultimately have "sortedIn a b (map key d6)" using r6(3) by (rule parted_sorted)
            moreover have "step key a b d5 d6"
              using r6(2) by (rule step_widen) (use mid in simp_all)
            then have "step key a b data d6" using st04 st45 by (blast intro: step_trans)
            moreover have "pdqsort_loop Less data a b limit wasBalanced wasPartitioned = Some d6"
              unfolding unfold
              by (simp only: ns if_False e5 Option.bind.simps ne e6 prod.case Let_def
                  True if_True r5(1) r6(1))
            ultimately show ?thesis by blast
          next
            case False
            have q1: "b \<le> length d4" using less.prems(2) len4 by simp
            have q2: "lbound (mid + 1) b (map key d4)"
              using lb4 pt4 mid(1) by (rule lbound_parted)
            from less.hyps [where limit = lim1 and wasBalanced = True
              and wasPartitioned = True, OF mR rR q1 q2] obtain d5 where
              r5: "pdqsort_loop Less d4 (mid + 1) b lim1 True True = Some d5"
                "step key (mid + 1) b d4 d5" "sortedIn (mid + 1) b (map key d5)" by blast
            have w5: "within (mid + 1) b (map key d4) (map key d5)"
              using r5(2) by (simp add: step_def)
            have st45: "step key a b d4 d5" using r5(2) by (rule step_widen) (use mid in simp_all)
            have len5: "length d5 = length data" using st45 len4 by (simp add: step_length)
            have pt5: "parted a mid b (map key d5)" using pt4 w5 by (rule parted_within_right)
            have lb5: "lbound a b (map key d5)" using lb4 st45 by (rule lbound_step)
            have q3: "mid \<le> length d5" using less.prems(2) len5 mid by simp
            have q4: "lbound a mid (map key d5)"
              using lb5 by (rule lbound_narrow) (use mid in simp)
            from less.hyps [where limit = lim1 and wasBalanced = "(b - a) div 8 \<le> b - mid"
              and wasPartitioned = ap, OF mL mid(1) q3 q4] obtain d6 where
              r6: "pdqsort_loop Less d5 a mid lim1 ((b - a) div 8 \<le> b - mid) ap = Some d6"
                "step key a mid d5 d6" "sortedIn a mid (map key d6)" by blast
            have w6: "within a mid (map key d5) (map key d6)" using r6(2) by (simp add: step_def)
            have pt6: "parted a mid b (map key d6)" using pt5 w6 by (rule parted_within_left)
            have sr6: "sortedIn (mid + 1) b (map key d6)"
              using r5(3) w6 by (rule sortedIn_within_disjoint) simp
            have "sortedIn a b (map key d6)" using pt6 r6(3) sr6 by (rule parted_sorted)
            moreover have "step key a b d5 d6"
              using r6(2) by (rule step_widen) (use mid in simp_all)
            then have "step key a b data d6" using st04 st45 by (blast intro: step_trans)
            moreover have "pdqsort_loop Less data a b limit wasBalanced wasPartitioned = Some d6"
              unfolding unfold
              by (simp only: ns if_False e5 Option.bind.simps ne e6 prod.case Let_def
                  False r5(1) r6(1))
            ultimately show ?thesis by blast
          qed
        qed
      qed
    qed
  qed
qed

subsection \<open>sort.Slice\<close>

lemma sort_Slice_correct:
  assumes kd: "keyed key lt Less" and cp: "compat lt"
  shows "\<exists>d'. sort_Slice Less x = Some d' \<and> mset d' = mset x \<and> sorted (map key d')"
proof -
  have lb: "lbound 0 (length x) (map key x)" by (simp add: lbound_def)
  have "0 \<le> length x" "length x \<le> length x" by simp_all
  from pdqsort_loop_correct [OF kd cp this lb, where limit = "bitsLen (length x)"
      and wasBalanced = True and wasPartitioned = True]
  obtain d' where
    r: "pdqsort_loop Less x 0 (length x) (bitsLen (length x)) True True = Some d'"
      "step key 0 (length x) x d'" "sortedIn 0 (length x) (map key d')" by blast
  have len: "length d' = length x" using r(2) by (rule step_length)
  have "sorted (map key d')"
    unfolding sorted_iff_nth_mono
  proof (intro allI impI)
    fix i j assume "i \<le> j" "j < length (map key d')"
    then show "map key d' ! i \<le> map key d' ! j"
      using sortedInD [OF r(3), of i j] len by simp
  qed
  moreover have "mset d' = mset x" using r(2) by (simp add: step_def)
  moreover have "sort_Slice Less x = Some d'"
    using r(1) by (simp add: sort_Slice_def pdqsort_func_def Let_def)
  ultimately show ?thesis by blast
qed

subsection \<open>The closure of ListAllRockets for the field speed\<close>

text \<open>
  For the field \<open>speed\<close> the closure compares by the signed value of the speed: with
  \<open>(<)\<close> when the order is not \<open>desc\<close>, and, when it is, with the negation of \<open>(<)\<close>,
  which is \<open>(\<le>)\<close> on the negated speeds.
\<close>

lemma strings_ToLower_Nil: "strings_ToLower unicodeToLower [] = []"
  by (simp add: strings_ToLower_def)

lemma ListAllRockets_less_speed_asc:
  assumes "strings_ToLower unicodeToLower sortBy = ''speed''"
    and "strings_ToLower unicodeToLower sortOrder \<noteq> ''desc''"
  shows "keyed (\<lambda>r. sint (CurrentSpeed r)) (<)
     (ListAllRockets_less uuid_String time_Before unicodeToLower sortBy sortOrder)"
  unfolding keyed_def
  using assms by (simp add: ListAllRockets_less_def sliceIndex_def word_sless_alt)

lemma ListAllRockets_less_speed_desc:
  assumes "strings_ToLower unicodeToLower sortBy = ''speed''"
    and "strings_ToLower unicodeToLower sortOrder = ''desc''"
  shows "keyed (\<lambda>r. - sint (CurrentSpeed r)) (\<le>)
     (ListAllRockets_less uuid_String time_Before unicodeToLower sortBy sortOrder)"
  unfolding keyed_def
  using assms by (auto simp add: ListAllRockets_less_def sliceIndex_def word_sless_alt)

lemma compat_less: "compat ((<) :: int \<Rightarrow> int \<Rightarrow> bool)"
  by (auto simp add: compat_def)

lemma compat_less_eq: "compat ((\<le>) :: int \<Rightarrow> int \<Rightarrow> bool)"
  by (auto simp add: compat_def)

lemma sorted_speed_asc:
  "sorted (map (\<lambda>r. sint (CurrentSpeed r)) xs)
   \<Longrightarrow> sorted_wrt (\<lambda>x y. CurrentSpeed x \<le>s CurrentSpeed y) xs"
  by (simp add: sorted_map word_sle_eq)

lemma sorted_speed_desc:
  "sorted (map (\<lambda>r. - sint (CurrentSpeed r)) xs)
   \<Longrightarrow> sorted_wrt (\<lambda>x y. CurrentSpeed y \<le>s CurrentSpeed x) xs"
  by (simp add: sorted_map word_sle_eq)

section \<open>Claims about ListAllRockets\<close>

text \<open>
  C7 (sorting by speed).  When the sort field, lowered by \<^verbatim>\<open>strings.ToLower\<close>, is
  \<open>speed\<close>, \<^verbatim>\<open>ListAllRockets\<close> returns without a panic, and what it returns is a
  permutation of the snapshot.  When the sort order, lowered, is \<open>desc\<close>, the speeds of
  the returned states never increase from one state to the next ones, as signed
  integers; for any other sort order, the empty one included, they never decrease.
\<close>

theorem sort_by_speed:
  assumes "strings_ToLower unicodeToLower sortBy = ''speed''"
  shows "\<exists>result.
    ListAllRockets uuid_String time_Before unicodeToLower rockets sortBy sortOrder = Inr result
    \<and> mset result = mset rockets
    \<and> (if strings_ToLower unicodeToLower sortOrder = ''desc''
        then sorted_wrt (\<lambda>x y. CurrentSpeed y \<le>s CurrentSpeed x) result
        else sorted_wrt (\<lambda>x y. CurrentSpeed x \<le>s CurrentSpeed y) result)"
proof -
  have ne: "sortBy \<noteq> []" using assms strings_ToLower_Nil [of unicodeToLower] by auto
  let ?Less = "ListAllRockets_less uuid_String time_Before unicodeToLower sortBy sortOrder"
  show ?thesis
  proof (cases "strings_ToLower unicodeToLower sortOrder = ''desc''")
    case True
    from sort_Slice_correct [OF ListAllRockets_less_speed_desc [OF assms True] compat_less_eq]
    obtain result where
      r: "sort_Slice ?Less rockets = Some result" "mset result = mset rockets"
        "sorted (map (\<lambda>r. - sint (CurrentSpeed r)) result)" by blast
    have "ListAllRockets uuid_String time_Before unicodeToLower rockets sortBy sortOrder
        = Inr result" using ne r(1) by (simp add: ListAllRockets_def)
    with r(2) sorted_speed_desc [OF r(3)] True show ?thesis by simp
  next
    case False
    from sort_Slice_correct [OF ListAllRockets_less_speed_asc [OF assms False] compat_less]
    obtain result where
      r: "sort_Slice ?Less rockets = Some result" "mset result = mset rockets"
        "sorted (map (\<lambda>r. sint (CurrentSpeed r)) result)" by blast
    have "ListAllRockets uuid_String time_Before unicodeToLower rockets sortBy sortOrder
        = Inr result" using ne r(1) by (simp add: ListAllRockets_def)
    with r(2) sorted_speed_asc [OF r(3)] False show ?thesis by simp
  qed
qed

text \<open>
  Three rockets with speeds 100, 200, 300, listed by "Speed" in the order "DESC": the
  field and the order are matched after lowering, and the listing is a permutation of
  the three in non-increasing order of speed.
\<close>

theorem sort_by_speed_witness:
  "strings_ToLower (\<lambda>s. s) ''Speed'' = ''speed'' \<and>
   (\<exists>result.
      ListAllRockets (\<lambda>k. []) (<) (\<lambda>s. s)
        [\<lparr>ID = (1::nat), Type = ''T1'', CurrentSpeed = 100, Mission = ''M'',
        Status = ''LAUNCHED'', Reason = None, LastUpdateTime = (3::int),
        LastProcessedMessageNumber = 1\<rparr>,
      \<lparr>ID = (2::nat), Type = ''T2'', CurrentSpeed = 200, Mission = ''M'',
        Status = ''LAUNCHED'', Reason = None, LastUpdateTime = (1::int),
        LastProcessedMessageNumber = 1\<rparr>,
      \<lparr>ID = (3::nat), Type = ''T3'', CurrentSpeed = 300, Mission = ''M'',
        Status = ''LAUNCHED'', Reason = None, LastUpdateTime = (2::int),
        LastProcessedMessageNumber = 1\<rparr>]
        ''Speed'' ''DESC'' = Inr result
      \<and> mset result = mset
        [\<lparr>ID = (1::nat), Type = ''T1'', CurrentSpeed = 100, Mission = ''M'',
        Status = ''LAUNCHED'', Reason = None, LastUpdateTime = (3::int),
        LastProcessedMessageNumber = 1\<rparr>,
      \<lparr>ID = (2::nat), Type = ''T2'', CurrentSpeed = 200, Mission = ''M'',
        Status = ''LAUNCHED'', Reason = None, LastUpdateTime = (1::int),
        LastProcessedMessageNumber = 1\<rparr>,
      \<lparr>ID = (3::nat), Type = ''T3'', CurrentSpeed = 300, Mission = ''M'',
        Status = ''LAUNCHED'', Reason = None, LastUpdateTime = (2::int),
        LastProcessedMessageNumber = 1\<rparr>]
      \<and> sorted_wrt (\<lambda>x y. CurrentSpeed y \<le>s CurrentSpeed x) result)"
proof -
  have f: "strings_ToLower (\<lambda>s. s) ''Speed'' = ''speed''"
    by code_simp
  have d: "strings_ToLower (\<lambda>s. s) ''DESC'' = ''desc''"
    by code_simp
  from sort_by_speed [OF f, where sortOrder = "''DESC''" and uuid_String = "\<lambda>k. []"
      and time_Before = "(<)" and rockets =
        "[\<lparr>ID = (1::nat), Type = ''T1'', CurrentSpeed = 100, Mission = ''M'',
        Status = ''LAUNCHED'', Reason = None, LastUpdateTime = (3::int),
        LastProcessedMessageNumber = 1\<rparr>,
      \<lparr>ID = (2::nat), Type = ''T2'', CurrentSpeed = 200, Mission = ''M'',
        Status = ''LAUNCHED'', Reason = None, LastUpdateTime = (1::int),
        LastProcessedMessageNumber = 1\<rparr>,
      \<lparr>ID = (3::nat), Type = ''T3'', CurrentSpeed = 300, Mission = ''M'',
        Status = ''LAUNCHED'', Reason = None, LastUpdateTime = (2::int),
        LastProcessedMessageNumber = 1\<rparr>]"]
  show ?thesis unfolding d using f by simp
qed

text \<open>
  The listing of three rockets, computed: 300, 200, 100 in the order "desc" from the
  snapshot 100, 200, 300, and 100, 200, 300 in the empty order from the snapshot
  200, 300, 100.
\<close>

lemma speed_desc_example:
  "ListAllRockets (\<lambda>k. []) (<) (\<lambda>s. s)
     [\<lparr>ID = (1::nat), Type = ''T1'', CurrentSpeed = 100, Mission = ''M'',
        Status = ''LAUNCHED'', Reason = None, LastUpdateTime = (3::int),
        LastProcessedMessageNumber = 1\<rparr>,
      \<lparr>ID = (2::nat), Type = ''T2'', CurrentSpeed = 200, Mission = ''M'',
        Status = ''LAUNCHED'', Reason = None, LastUpdateTime = (1::int),
        LastProcessedMessageNumber = 1\<rparr>,
      \<lparr>ID = (3::nat), Type = ''T3'', CurrentSpeed = 300, Mission = ''M'',
        Status = ''LAUNCHED'', Reason = None, LastUpdateTime = (2::int),
        LastProcessedMessageNumber = 1\<rparr>]
     ''speed'' ''desc''
   = Inr [\<lparr>ID = (3::nat), Type = ''T3'', CurrentSpeed = 300, Mission = ''M'',
        Status = ''LAUNCHED'', Reason = None, LastUpdateTime = (2::int),
        LastProcessedMessageNumber = 1\<rparr>,
      \<lparr>ID = (2::nat), Type = ''T2'', CurrentSpeed = 200, Mission = ''M'',
        Status = ''LAUNCHED'', Reason = None, LastUpdateTime = (1::int),
        LastProcessedMessageNumber = 1\<rparr>,
      \<lparr>ID = (1::nat), Type = ''T1'', CurrentSpeed = 100, Mission = ''M'',
        Status = ''LAUNCHED'', Reason = None, LastUpdateTime = (3::int),
        LastProcessedMessageNumber = 1\<rparr>]"
  by code_simp

lemma speed_asc_example:
  "ListAllRockets (\<lambda>k. []) (<) (\<lambda>s. s)
     [\<lparr>ID = (2::nat), Type = ''T2'', CurrentSpeed = 200, Mission = ''M'',
        Status = ''LAUNCHED'', Reason = None, LastUpdateTime = (1::int),
        LastProcessedMessageNumber = 1\<rparr>,
      \<lparr>ID = (3::nat), Type = ''T3'', CurrentSpeed = 300, Mission = ''M'',
        Status = ''LAUNCHED'', Reason = None, LastUpdateTime = (2::int),
        LastProcessedMessageNumber = 1\<rparr>,
      \<lparr>ID = (1::nat), Type = ''T1'', CurrentSpeed = 100, Mission = ''M'',
        Status = ''LAUNCHED'', Reason = None, LastUpdateTime = (3::int),
        LastProcessedMessageNumber = 1\<rparr>]
     ''speed'' []
   = Inr [\<lparr>ID = (1::nat), Type = ''T1'', CurrentSpeed = 100, Mission = ''M'',
        Status = ''LAUNCHED'', Reason = None, LastUpdateTime = (3::int),
        LastProcessedMessageNumber = 1\<rparr>,
      \<lparr>ID = (2::nat), Type = ''T2'', CurrentSpeed = 200, Mission = ''M'',
        Status = ''LAUNCHED'', Reason = None, LastUpdateTime = (1::int),
        LastProcessedMessageNumber = 1\<rparr>,
      \<lparr>ID = (3::nat), Type = ''T3'', CurrentSpeed = 300, Mission = ''M'',
        Status = ''LAUNCHED'', Reason = None, LastUpdateTime = (2::int),
        LastProcessedMessageNumber = 1\<rparr>]"
  by code_simp

text \<open>
  C8 (unknown sort field).  For every snapshot and every non-empty \<open>sortBy\<close> that is
  none of id, type, speed, mission, lastUpdateTime (the names being matched as the
  recognised fields are: after \<^verbatim>\<open>strings.ToLower\<close>), \<^verbatim>\<open>ListAllRockets\<close> returns the
  snapshot in the order it was given, whatever the sort order asked for, and does not
  panic.
\<close>

theorem unknown_sort_field:
  assumes "sortBy \<noteq> []"
    and "strings_ToLower unicodeToLower sortBy \<notin>
           {''id'', ''type'', ''speed'', ''mission'', ''lastupdatetime''}"
  shows "ListAllRockets uuid_String time_Before unicodeToLower rockets sortBy sortOrder
           = Inr rockets"
proof -
  have "ListAllRockets_less uuid_String time_Before unicodeToLower sortBy sortOrder = byIndex"
    using assms(2) by (intro ext) (simp add: ListAllRockets_less_def byIndex_def)
  then show ?thesis
    using assms(1) by (simp add: ListAllRockets_def sort_Slice_byIndex)
qed

text \<open>Three rockets with speeds 300, 100, 200, listed by the unknown field "altitude".\<close>

theorem unknown_sort_field_witness:
  "ListAllRockets (\<lambda>k. []) (<) (\<lambda>s. s)
     [\<lparr>ID = (1::nat), Type = ''T1'', CurrentSpeed = 300, Mission = ''M'',
        Status = ''LAUNCHED'', Reason = None, LastUpdateTime = (3::int),
        LastProcessedMessageNumber = 1\<rparr>,
      \<lparr>ID = (2::nat), Type = ''T2'', CurrentSpeed = 100, Mission = ''M'',
        Status = ''LAUNCHED'', Reason = None, LastUpdateTime = (1::int),
        LastProcessedMessageNumber = 1\<rparr>,
      \<lparr>ID = (3::nat), Type = ''T3'', CurrentSpeed = 200, Mission = ''M'',
        Status = ''LAUNCHED'', Reason = None, LastUpdateTime = (2::int),
        LastProcessedMessageNumber = 1\<rparr>]
     ''altitude'' ''desc''
   = Inr [\<lparr>ID = (1::nat), Type = ''T1'', CurrentSpeed = 300, Mission = ''M'',
        Status = ''LAUNCHED'', Reason = None, LastUpdateTime = (3::int),
        LastProcessedMessageNumber = 1\<rparr>,
      \<lparr>ID = (2::nat), Type = ''T2'', CurrentSpeed = 100, Mission = ''M'',
        Status = ''LAUNCHED'', Reason = None, LastUpdateTime = (1::int),
        LastProcessedMessageNumber = 1\<rparr>,
      \<lparr>ID = (3::nat), Type = ''T3'', CurrentSpeed = 200, Mission = ''M'',
        Status = ''LAUNCHED'', Reason = None, LastUpdateTime = (2::int),
        LastProcessedMessageNumber = 1\<rparr>]"
  using unknown_sort_field [of "''altitude''" "\<lambda>s. s" "\<lambda>k. []" "(<)"
     "[\<lparr>ID = (1::nat), Type = ''T1'', CurrentSpeed = 300, Mission = ''M'',
        Status = ''LAUNCHED'', Reason = None, LastUpdateTime = (3::int),
        LastProcessedMessageNumber = 1\<rparr>,
      \<lparr>ID = (2::nat), Type = ''T2'', CurrentSpeed = 100, Mission = ''M'',
        Status = ''LAUNCHED'', Reason = None, LastUpdateTime = (1::int),
        LastProcessedMessageNumber = 1\<rparr>,
      \<lparr>ID = (3::nat), Type = ''T3'', CurrentSpeed = 200, Mission = ''M'',
        Status = ''LAUNCHED'', Reason = None, LastUpdateTime = (2::int),
        LastProcessedMessageNumber = 1\<rparr>]" "''desc''"]
  by (simp add: strings_ToLower_def)

end
